theory Spec2Isabelle
  imports Complex_Main
begin

section \<open>Python numbers\<close>

text \<open>
  The script computes with Python ints (unbounded, modelled by \<open>int\<close> and \<open>nat\<close>) and Python
  floats (IEEE-754 binary64). A float is modelled by the real number it denotes; every float
  operation is the exact operation followed by \<open>fl\<close>, rounding to the nearest number with a
  53-bit significand, ties to even. The exponent range is not modelled: for image sides that
  fit a C int, every quantity of the script is far from overflow and underflow.
\<close>

function bitlen :: "int \<Rightarrow> int" where
  "bitlen n = (if n \<le> 0 then 0 else 1 + bitlen (n div 2))"
  by pat_completeness auto
termination
  by (relation "measure nat") auto

declare bitlen.simps [simp del]

definition pow2 :: "int \<Rightarrow> real" where
  "pow2 e = (if 0 \<le> e then 2 ^ nat e else 1 / 2 ^ nat (- e))"

text \<open>\<open>flog2 x\<close> is the binary exponent of a positive \<open>x\<close>: \<open>2^e \<le> x < 2^(e+1)\<close>.\<close>

definition flog2 :: "real \<Rightarrow> int" where
  "flog2 x = (if 1 \<le> x then bitlen \<lfloor>x\<rfloor> - 1 else - bitlen (\<lceil>1 / x\<rceil> - 1))"

text \<open>Python's \<open>round(x)\<close> on a float: the nearest integer, ties to the even one.\<close>

definition py_round :: "real \<Rightarrow> int" where
  "py_round x = (let f = \<lfloor>x\<rfloor>; d = x - of_int f
     in if d < 1 / 2 then f else if 1 / 2 < d then f + 1 else if even f then f else f + 1)"

text \<open>Python's \<open>int(x)\<close> on a float: truncation towards zero.\<close>

definition py_int :: "real \<Rightarrow> int" where
  "py_int x = (if 0 \<le> x then \<lfloor>x\<rfloor> else \<lceil>x\<rceil>)"

definition fl :: "real \<Rightarrow> real" where
  "fl x = (if x = 0 then 0 else
     let u = pow2 (flog2 \<bar>x\<bar> - 52) in of_int (py_round (x / u)) * u)"

definition py_float :: "int \<Rightarrow> real" where
  "py_float n = fl (of_int n)"

definition fadd :: "real \<Rightarrow> real \<Rightarrow> real" where
  "fadd a b = fl (a + b)"

definition fsub :: "real \<Rightarrow> real \<Rightarrow> real" where
  "fsub a b = fl (a - b)"

definition fmul :: "real \<Rightarrow> real \<Rightarrow> real" where
  "fmul a b = fl (a * b)"

text \<open>Float division; the callers check for a zero divisor, where Python raises.\<close>

definition fdiv :: "real \<Rightarrow> real \<Rightarrow> real" where
  "fdiv a b = fl (a / b)"

text \<open>\<open>a / b\<close> on two ints: the correctly rounded quotient.\<close>

definition py_truediv :: "int \<Rightarrow> int \<Rightarrow> real" where
  "py_truediv a b = fl (of_int a / of_int b)"

datatype py_error = ZeroDivisionError | ValueError

section \<open>Images\<close>

text \<open>
  An RGB image of the imaging library: its size and its pixel access object, read as
  \<open>pixels[x, y]\<close>. Channels are Python ints in 0..255.
\<close>

type_synonym pixel = "int \<times> int \<times> int"

record image =
  xsize :: nat
  ysize :: nat
  pix :: "nat \<times> nat \<Rightarrow> pixel"

datatype resample = BILINEAR | LANCZOS

text \<open>
  \<open>Image.resize\<close> belongs to the imaging library; its resampling filters are not part of the
  script, so the resizer is a parameter of every function that calls it.
\<close>

type_synonym resizer = "resample \<Rightarrow> image \<Rightarrow> nat \<times> nat \<Rightarrow> image"

text \<open>\<open>Image.new("RGB", size, color)\<close>.\<close>

definition new_image :: "nat \<times> nat \<Rightarrow> pixel \<Rightarrow> image" where
  "new_image sz color = (case sz of (w, h) \<Rightarrow> \<lparr>xsize = w, ysize = h, pix = (\<lambda>_. color)\<rparr>)"

text \<open>
  \<open>Image.crop(box)\<close>: the library raises ValueError when right is less than left or lower is
  less than upper; the region outside the source is black.
\<close>

definition crop :: "image \<Rightarrow> int \<times> int \<times> int \<times> int \<Rightarrow> py_error + image" where
  "crop im box = (case box of (l, t, r, b) \<Rightarrow>
     if r < l then Inl ValueError
     else if b < t then Inl ValueError
     else Inr \<lparr>xsize = nat (r - l), ysize = nat (b - t),
               pix = (\<lambda>(x, y). let sx = int x + l; sy = int y + t
                       in if 0 \<le> sx \<and> sx < int (xsize im) \<and> 0 \<le> sy \<and> sy < int (ysize im)
                          then pix im (nat sx, nat sy) else (0, 0, 0))\<rparr>)"

text \<open>\<open>dst.paste(im, (ox, oy))\<close>.\<close>

definition paste :: "image \<Rightarrow> image \<Rightarrow> nat \<times> nat \<Rightarrow> image" where
  "paste dst im off = (case off of (ox, oy) \<Rightarrow>
     dst\<lparr>pix := (\<lambda>(x, y).
       if ox \<le> x \<and> x < ox + xsize im \<and> oy \<le> y \<and> y < oy + ysize im
       then pix im (x - ox, y - oy) else pix dst (x, y))\<rparr>)"

text \<open>\<open>draw.line([(0, y), (width, y)], fill)\<close>: row \<open>y\<close> of the image, clipped to it.\<close>

definition draw_line :: "image \<Rightarrow> nat \<Rightarrow> pixel \<Rightarrow> image" where
  "draw_line im y fill =
     im\<lparr>pix := (\<lambda>(x, y'). if y' = y \<and> x < xsize im then fill else pix im (x, y'))\<rparr>"

section \<open>The icon script\<close>

definition TARGET_SIZE :: nat where
  "TARGET_SIZE = 1024"

definition CROP_SAT_THRESH :: real where
  "CROP_SAT_THRESH = fl (35 / 1000)"

definition CROP_LUM_THRESH :: real where
  "CROP_LUM_THRESH = 220"

definition CROP_INSET_PERCENT :: real where
  "CROP_INSET_PERCENT = 6"

definition CROP_DOWNSCALE_MAX :: int where
  "CROP_DOWNSCALE_MAX = 700"

definition create_dark_gradient :: "nat \<times> nat \<Rightarrow> image" where
  "create_dark_gradient sz = (case sz of (width, height) \<Rightarrow>
     fold (\<lambda>y gradient.
        let ratio = py_truediv (int y) (int height);
            r = py_int (fadd (py_float 49) (fmul (py_float (20 - 49)) ratio));
            g = py_int (fadd (py_float 49) (fmul (py_float (20 - 49)) ratio));
            b = py_int (fadd (py_float 49) (fmul (py_float (20 - 49)) ratio))
        in draw_line gradient y (r, g, b))
       [0..<height] (new_image (width, height) (0, 0, 0)))"

definition luminance :: "int \<Rightarrow> int \<Rightarrow> int \<Rightarrow> real" where
  "luminance r g b =
     fadd (fadd (fmul (fl (299 / 1000)) (py_float r)) (fmul (fl (587 / 1000)) (py_float g)))
          (fmul (fl (114 / 1000)) (py_float b))"

definition is_orange_accent :: "int \<Rightarrow> int \<Rightarrow> int \<Rightarrow> bool" where
  "is_orange_accent r g b = (r > 170 \<and> g > 80 \<and> b < 140 \<and> r - b > 80)"

text \<open>The test of the scan loop of the cropper: saturated enough, or dark enough.\<close>

definition of_interest :: "real \<Rightarrow> real \<Rightarrow> pixel \<Rightarrow> bool" where
  "of_interest sat_thresh lum_thresh p = (case p of (r, g, b) \<Rightarrow>
     let lum = luminance r g b;
         max_c = max r (max g b);
         min_c = min r (min g b);
         sat = (if max_c > 0 then fdiv (py_float (max_c - min_c)) 255 else 0)
     in sat > sat_thresh \<or> lum < lum_thresh)"

text \<open>The body of the scan loop at pixel \<open>(x, y)\<close>, on the state \<open>(min_x, min_y, max_x, max_y)\<close>.\<close>

definition scan_pixel ::
  "real \<Rightarrow> real \<Rightarrow> (nat \<times> nat \<Rightarrow> pixel) \<Rightarrow> nat \<Rightarrow> nat \<Rightarrow> nat \<times> nat \<times> nat \<times> nat
     \<Rightarrow> nat \<times> nat \<times> nat \<times> nat" where
  "scan_pixel sat_thresh lum_thresh pixels y x st = (case st of (min_x, min_y, max_x, max_y) \<Rightarrow>
     if of_interest sat_thresh lum_thresh (pixels (x, y)) then
       (if x < min_x then x else min_x, if y < min_y then y else min_y,
        if x > max_x then x else max_x, if y > max_y then y else max_y)
     else st)"

definition scan_bounds ::
  "real \<Rightarrow> real \<Rightarrow> nat \<Rightarrow> nat \<Rightarrow> (nat \<times> nat \<Rightarrow> pixel) \<Rightarrow> nat \<times> nat \<times> nat \<times> nat" where
  "scan_bounds sat_thresh lum_thresh sw sh pixels =
     fold (\<lambda>y st. fold (\<lambda>x st'. scan_pixel sat_thresh lum_thresh pixels y x st') [0..<sw] st)
       [0..<sh] (sw, sh, 0, 0)"

text \<open>
  The arithmetic between the scan and the crop: the bounds in source coordinates, the inset,
  the centred square and its clamping to the image.
\<close>

definition square_box ::
  "int \<Rightarrow> int \<Rightarrow> real \<Rightarrow> real \<Rightarrow> nat \<times> nat \<times> nat \<times> nat \<Rightarrow> int \<times> int \<times> int \<times> int" where
  "square_box w h scale inset_percent bounds = (case bounds of (min_x, min_y, max_x, max_y) \<Rightarrow>
     let inv = fdiv 1 scale;
         left0 = py_round (fmul (py_float (int min_x)) inv);
         top0 = py_round (fmul (py_float (int min_y)) inv);
         right0 = py_round (fmul (py_float (int max_x + 1)) inv);
         bottom0 = py_round (fmul (py_float (int max_y + 1)) inv);
         side = max (right0 - left0) (bottom0 - top0);
         inset_px = py_round (fmul (py_float side) (fdiv inset_percent 100));
         left = left0 + inset_px;
         top = top0 + inset_px;
         right = right0 - inset_px;
         bottom = bottom0 - inset_px;
         cx = fdiv (py_float (left + right)) 2;
         cy = fdiv (py_float (top + bottom)) 2;
         side2 = max (right - left) (bottom - top);
         sq_left = py_round (fsub cx (fdiv (py_float side2) 2));
         sq_top = py_round (fsub cy (fdiv (py_float side2) 2));
         sq_right = sq_left + side2;
         sq_bottom = sq_top + side2
     in (max 0 sq_left, max 0 sq_top, min w sq_right, min h sq_bottom))"

text \<open>The last step of the cropper: pad with white when the crop is not square.\<close>

definition ensure_square :: "image \<Rightarrow> image" where
  "ensure_square cropped = (let cw = xsize cropped; ch = ysize cropped in
     if cw \<noteq> ch then
       let new_side = max cw ch;
           square = new_image (new_side, new_side) (255, 255, 255)
       in paste square cropped ((new_side - cw) div 2, (new_side - ch) div 2)
     else cropped)"

definition downscale :: "int \<Rightarrow> int \<Rightarrow> int \<Rightarrow> real" where
  "downscale downscale_max w h = min 1 (fdiv (py_float downscale_max) (py_float (max w h)))"

definition small_size :: "int \<Rightarrow> int \<Rightarrow> int \<Rightarrow> nat \<times> nat" where
  "small_size downscale_max w h = (let scale = downscale downscale_max w h in
     (nat (max 1 (py_round (fmul (py_float w) scale))),
      nat (max 1 (py_round (fmul (py_float h) scale)))))"

definition crop_to_gradient_tile_square_with ::
  "resizer \<Rightarrow> image \<Rightarrow> real \<Rightarrow> real \<Rightarrow> real \<Rightarrow> int \<Rightarrow> py_error + image" where
  "crop_to_gradient_tile_square_with resize img sat_thresh lum_thresh inset_percent downscale_max =
    (let rgb = img; w = int (xsize rgb); h = int (ysize rgb) in
     if max w h = 0 then Inl ZeroDivisionError
     else
       let scale = downscale downscale_max w h;
           (sw, sh) = small_size downscale_max w h;
           small = resize BILINEAR rgb (sw, sh);
           pixels = pix small;
           (min_x, min_y, max_x, max_y) = scan_bounds sat_thresh lum_thresh sw sh pixels
       in if max_x \<le> min_x \<or> max_y \<le> min_y then Inr rgb
          else
            (case crop rgb (square_box w h scale inset_percent (min_x, min_y, max_x, max_y)) of
               Inl e \<Rightarrow> Inl e
             | Inr cropped \<Rightarrow> Inr (ensure_square cropped)))"

text \<open>The cropper with the default arguments of the script, as its only caller uses it.\<close>

definition crop_to_gradient_tile_square :: "resizer \<Rightarrow> image \<Rightarrow> py_error + image" where
  "crop_to_gradient_tile_square resize img =
     crop_to_gradient_tile_square_with resize img
       CROP_SAT_THRESH CROP_LUM_THRESH CROP_INSET_PERCENT CROP_DOWNSCALE_MAX"

definition create_light_icon :: "resizer \<Rightarrow> image \<Rightarrow> py_error + image" where
  "create_light_icon resize original_img =
     (case crop_to_gradient_tile_square resize original_img of
        Inl e \<Rightarrow> Inl e
      | Inr cropped \<Rightarrow> Inr (resize LANCZOS cropped (TARGET_SIZE, TARGET_SIZE)))"

definition is_foreground_pixel :: "int \<Rightarrow> int \<Rightarrow> int \<Rightarrow> bool" where
  "is_foreground_pixel r g b = (let lum = luminance r g b in
     if is_orange_accent r g b then True else lum < 205)"

text \<open>The body of the recolouring loop of the dark variant at pixel \<open>(x, y)\<close>.\<close>

definition dark_pixel ::
  "(nat \<times> nat \<Rightarrow> pixel) \<Rightarrow> nat \<Rightarrow> nat \<Rightarrow> (nat \<times> nat \<Rightarrow> pixel) \<Rightarrow> (nat \<times> nat \<Rightarrow> pixel)" where
  "dark_pixel src_pixels y x result_pixels = (case src_pixels (x, y) of (r, g, b) \<Rightarrow>
     if \<not> is_foreground_pixel r g b then result_pixels
     else
       let lum = luminance r g b in
       if is_orange_accent r g b then
         result_pixels((x, y) := (min 255 (py_int (fmul (py_float r) (fl (105 / 100)))),
                                  min 255 (py_int (fmul (py_float g) (fl (105 / 100)))), b))
       else if lum < 120 then result_pixels((x, y) := (240, 240, 240))
       else
         let v = max 70 (min 140 (py_int (fmul lum (fl (55 / 100)))))
         in result_pixels((x, y) := (v, v, v)))"

definition create_dark_icon :: "image \<Rightarrow> image" where
  "create_dark_icon source_img =
    (let sz = (xsize source_img, ysize source_img);
         dark_bg = create_dark_gradient sz;
         src = source_img;
         result = dark_bg;
         (width, height) = sz;
         src_pixels = pix src
     in result\<lparr>pix :=
          fold (\<lambda>y rp. fold (\<lambda>x rp'. dark_pixel src_pixels y x rp') [0..<width] rp)
            [0..<height] (pix result)\<rparr>)"

text \<open>The body of the recolouring loop of the tinted variant at pixel \<open>(x, y)\<close>.\<close>

definition tinted_pixel ::
  "(nat \<times> nat \<Rightarrow> pixel) \<Rightarrow> nat \<Rightarrow> nat \<Rightarrow> (nat \<times> nat \<Rightarrow> pixel) \<Rightarrow> (nat \<times> nat \<Rightarrow> pixel)" where
  "tinted_pixel src_pixels y x result_pixels = (case src_pixels (x, y) of (r, g, b) \<Rightarrow>
     if \<not> is_foreground_pixel r g b then result_pixels
     else
       let lum = luminance r g b in
       if is_orange_accent r g b then result_pixels((x, y) := (255, 255, 255))
       else if lum < 120 then result_pixels((x, y) := (255, 255, 255))
       else
         let v = max 140 (min 220 (py_int lum))
         in result_pixels((x, y) := (v, v, v)))"

definition create_tinted_icon :: "image \<Rightarrow> image" where
  "create_tinted_icon source_img =
    (let sz = (xsize source_img, ysize source_img);
         src = source_img;
         result = new_image sz (0, 0, 0);
         (width, height) = sz;
         src_pixels = pix src
     in result\<lparr>pix :=
          fold (\<lambda>y rp. fold (\<lambda>x rp'. tinted_pixel src_pixels y x rp') [0..<width] rp)
            [0..<height] (pix result)\<rparr>)"

text \<open>\<open>main\<close> without its file input and output: the three images it saves.\<close>

definition main :: "resizer \<Rightarrow> image \<Rightarrow> py_error + image \<times> image \<times> image" where
  "main resize original =
     (case create_light_icon resize original of
        Inl e \<Rightarrow> Inl e
      | Inr light \<Rightarrow> Inr (light, create_dark_icon light, create_tinted_icon light))"

section \<open>Concrete inputs\<close>

text \<open>
  A resizer to run the script on concrete images: nearest-neighbour sampling. It returns an
  image of the requested size and, as the library does, the pixels of the source when the
  size does not change.
\<close>

definition resize_nearest :: resizer where
  "resize_nearest f im sz = (case sz of (w, h) \<Rightarrow>
     \<lparr>xsize = w, ysize = h, pix = (\<lambda>(x, y). pix im (x * xsize im div w, y * ysize im div h))\<rparr>)"

text \<open>A white image 2 wide and 1 high, a white 2 by 2 image with one black pixel, a black 4 by 3 image.\<close>

definition white_2x1 :: image where
  "white_2x1 = new_image (2, 1) (255, 255, 255)"

definition dot_2x2 :: image where
  "dot_2x2 = \<lparr>xsize = 2, ysize = 2,
     pix = (\<lambda>p. if p = (1, 0) then (0, 0, 0) else (255, 255, 255))\<rparr>"

definition black_4x3 :: image where
  "black_4x3 = new_image (4, 3) (0, 0, 0)"

text \<open>One-pixel images: a mid grey and an orange accent.\<close>

definition gray_1x1 :: image where
  "gray_1x1 = new_image (1, 1) (150, 150, 150)"

definition accent_1x1 :: image where
  "accent_1x1 = new_image (1, 1) (200, 120, 30)"

section \<open>Properties of the number model\<close>

text \<open>Unfolding these evaluates a float operation on numerals.\<close>

lemma bitlen_eval:
  "bitlen 0 = 0" "bitlen 1 = 1" "bitlen (numeral k) = 1 + bitlen (numeral k div 2)"
  "bitlen (- numeral k) = 0"
  by (subst bitlen.simps, simp)+

lemma py_round_unfold:
  "py_round x = (if x - of_int \<lfloor>x\<rfloor> < 1 / 2 then \<lfloor>x\<rfloor>
     else if 1 / 2 < x - of_int \<lfloor>x\<rfloor> then \<lfloor>x\<rfloor> + 1
     else if even \<lfloor>x\<rfloor> then \<lfloor>x\<rfloor> else \<lfloor>x\<rfloor> + 1)"
  by (simp add: py_round_def Let_def)

lemma fl_unfold:
  "fl x = (if x = 0 then 0
     else of_int (py_round (x / pow2 (flog2 \<bar>x\<bar> - 52))) * pow2 (flog2 \<bar>x\<bar> - 52))"
  by (simp add: fl_def Let_def)

lemmas fl_eval = fl_unfold flog2_def pow2_def py_round_unfold py_int_def py_float_def
  py_truediv_def fadd_def fsub_def fmul_def fdiv_def bitlen_eval

lemma pow2_powi: "pow2 e = 2 powi e"
  by (simp add: pow2_def power_int_def inverse_eq_divide power_one_over)

lemma pow2_pos: "0 < pow2 e"
  by (simp add: pow2_powi)

lemma pow2_add: "pow2 (a + b) = pow2 a * pow2 b"
  by (simp add: pow2_powi power_int_add)

lemma pow2_mono: "a \<le> b \<Longrightarrow> pow2 a \<le> pow2 b"
  by (simp add: pow2_powi power_int_increasing)

lemma bitlen_nonneg: "0 \<le> bitlen n"
  by (induction n rule: bitlen.induct) (subst bitlen.simps, simp)

lemma bitlen_bounds:
  "0 < n \<Longrightarrow> 2 ^ nat (bitlen n - 1) \<le> n \<and> n < 2 ^ nat (bitlen n)"
proof (induction n rule: bitlen.induct)
  case (1 n)
  show ?case
  proof (cases "n = 1")
    case True
    have "bitlen 1 = 1"
      by (simp add: bitlen.simps)
    with True show ?thesis by simp
  next
    case False
    with "1.prems" have h: "0 < n div 2" by simp
    from "1.IH" [OF _ h] "1.prems"
    have ih: "2 ^ nat (bitlen (n div 2) - 1) \<le> n div 2" "n div 2 < 2 ^ nat (bitlen (n div 2))"
      by simp_all
    have b: "bitlen n = 1 + bitlen (n div 2)"
      using "1.prems" by (subst bitlen.simps) simp
    have pos: "1 \<le> bitlen (n div 2)"
      using h bitlen_nonneg [of "n div 2 div 2"] by (subst bitlen.simps) simp
    have e1: "nat (bitlen n - 1) = Suc (nat (bitlen (n div 2) - 1))"
      using b pos by simp
    have e2: "nat (bitlen n) = Suc (nat (bitlen (n div 2)))"
      using b pos by simp
    show ?thesis
      unfolding e1 e2 using ih by simp presburger
  qed
qed


lemma pow2_less_cancel: "pow2 a < pow2 b \<Longrightarrow> a < b"
  using pow2_mono [of b a] by (cases "a < b") auto

lemma flog2_bounds:
  assumes "0 < x"
  shows "pow2 (flog2 x) \<le> x \<and> x < pow2 (flog2 x + 1)"
proof (cases "1 \<le> x")
  case True
  define n where "n = \<lfloor>x\<rfloor>"
  have n: "0 < n" "of_int n \<le> x" "x < of_int n + 1"
    using True by (simp_all add: n_def)
  have e: "flog2 x = bitlen n - 1"
    using True by (simp add: flog2_def n_def)
  from bitlen_bounds [OF n(1)]
  have b: "2 ^ nat (bitlen n - 1) \<le> n" "n + 1 \<le> 2 ^ nat (bitlen n)"
    by simp_all
  have pos: "1 \<le> bitlen n"
    using n(1) bitlen_nonneg [of "n div 2"] by (subst bitlen.simps) simp
  have "pow2 (flog2 x) = of_int (2 ^ nat (bitlen n - 1))"
    using pos by (simp add: e pow2_def)
  also have "\<dots> \<le> of_int n"
    using b(1) by (simp only: of_int_le_iff)
  finally have lo: "pow2 (flog2 x) \<le> x"
    using n(2) by simp
  have "of_int (n + 1) \<le> (of_int (2 ^ nat (bitlen n)) :: real)"
    using b(2) by (simp only: of_int_le_iff)
  moreover have "pow2 (flog2 x + 1) = of_int (2 ^ nat (bitlen n))"
    using pos by (simp add: e pow2_def)
  ultimately have "x < pow2 (flog2 x + 1)"
    using n(3) by simp
  with lo show ?thesis by simp
next
  case False
  define y where "y = 1 / x"
  define m where "m = \<lceil>y\<rceil> - 1"
  have y: "1 < y" "x = 1 / y" "0 < y"
    using False assms by (simp_all add: y_def)
  have m: "0 < m" "of_int m < y" "y \<le> of_int m + 1"
    using y(1) by (simp_all add: m_def less_ceiling_iff) linarith+
  have e: "flog2 x = - bitlen m"
    using False by (simp add: flog2_def m_def y_def)
  from bitlen_bounds [OF m(1)]
  have b: "2 ^ nat (bitlen m - 1) \<le> m" "m + 1 \<le> 2 ^ nat (bitlen m)"
    by simp_all
  have pos: "1 \<le> bitlen m"
    using m(1) bitlen_nonneg [of "m div 2"] by (subst bitlen.simps) simp
  have "of_int (m + 1) \<le> (of_int (2 ^ nat (bitlen m)) :: real)"
    using b(2) by (simp only: of_int_le_iff)
  then have "y \<le> 2 ^ nat (bitlen m)"
    using m(3) by simp
  then have "1 / 2 ^ nat (bitlen m) \<le> 1 / y"
    using y(3) by (simp add: frac_le)
  moreover have "pow2 (flog2 x) = 1 / 2 ^ nat (bitlen m)"
    using pos by (simp add: e pow2_def)
  ultimately have lo: "pow2 (flog2 x) \<le> x"
    using y(2) by simp
  have "(2::real) ^ nat (bitlen m - 1) \<le> of_int m"
    using b(1) by (metis of_int_le_iff of_int_numeral of_int_power)
  then have "2 ^ nat (bitlen m - 1) < y"
    using m(2) by linarith
  then have "1 / y < 1 / 2 ^ nat (bitlen m - 1)"
    by (simp add: frac_less2)
  moreover have "pow2 (flog2 x + 1) = 1 / 2 ^ nat (bitlen m - 1)"
    using pos by (auto simp add: e pow2_def)
  ultimately have "x < pow2 (flog2 x + 1)"
    using y(2) by simp
  with lo show ?thesis by simp
qed

lemma py_round_err: "\<bar>of_int (py_round x) - x\<bar> \<le> 1 / 2"
  unfolding py_round_def Let_def by (auto simp: abs_le_iff)

lemma py_round_of_int: "py_round (of_int k) = k"
  by (simp add: py_round_def)

lemma fl_err: "\<bar>fl x - x\<bar> \<le> \<bar>x\<bar> / 2 ^ 53"
proof (cases "x = 0")
  case True
  then show ?thesis by (simp add: fl_def)
next
  case False
  define e where "e = flog2 \<bar>x\<bar>"
  define u where "u = pow2 (e - 52)"
  have u: "0 < u" by (simp add: u_def pow2_pos)
  have f: "fl x = of_int (py_round (x / u)) * u"
    using False by (simp add: fl_def Let_def u_def e_def)
  have "fl x - x = (of_int (py_round (x / u)) - x / u) * u"
    using u by (simp add: f field_simps)
  then have "\<bar>fl x - x\<bar> = \<bar>of_int (py_round (x / u)) - x / u\<bar> * u"
    using u by (simp add: abs_mult)
  also have "\<dots> \<le> 1 / 2 * u"
    using py_round_err [of "x / u"] u by (intro mult_right_mono) simp_all
  also have "\<dots> = pow2 e / 2 ^ 53"
    using pow2_add [of e "- 52"] by (simp add: u_def pow2_def)
  also have "\<dots> \<le> \<bar>x\<bar> / 2 ^ 53"
    using flog2_bounds [of "\<bar>x\<bar>"] False by (simp add: e_def divide_right_mono)
  finally show ?thesis .
qed


lemma fl_exact:
  assumes "\<bar>n\<bar> < 2 ^ 53"
  shows "fl (of_int n * pow2 j) = of_int n * pow2 j"
proof (cases "n = 0")
  case True
  then show ?thesis by (simp add: fl_def)
next
  case False
  define x where "x = of_int n * pow2 j"
  define e where "e = flog2 \<bar>x\<bar>"
  define k where "k = j - (e - 52)"
  define u where "u = pow2 (e - 52)"
  have x0: "x \<noteq> 0" "0 < \<bar>x\<bar>"
    using False pow2_pos [of j] by (simp_all add: x_def)
  have "real_of_int \<bar>n\<bar> < 2 ^ 53"
    using assms by (metis of_int_less_iff of_int_numeral of_int_power)
  then have "\<bar>x\<bar> < 2 ^ 53 * pow2 j"
    using pow2_pos [of j] by (simp add: x_def abs_mult)
  also have "\<dots> = pow2 (53 + j)"
    by (simp add: pow2_add) (simp add: pow2_def)
  finally have "pow2 e < pow2 (53 + j)"
    using flog2_bounds [OF x0(2)] by (simp add: e_def)
  then have k: "0 \<le> k"
    using pow2_less_cancel [of e "53 + j"] by (simp add: k_def)
  have u: "0 < u" by (simp add: u_def pow2_pos)
  have j: "pow2 j = pow2 k * u"
    using pow2_add [of k "e - 52"] by (simp add: k_def u_def)
  have pk: "pow2 k = of_int (2 ^ nat k)"
    using k by (simp add: pow2_def)
  have "x / u = of_int (n * 2 ^ nat k)"
    using u by (simp add: x_def j pk)
  then have "py_round (x / u) = n * 2 ^ nat k"
    by (simp only: py_round_of_int)
  moreover have "fl x = of_int (py_round (x / u)) * u"
    using x0(1) by (simp add: fl_def Let_def u_def e_def)
  ultimately have "fl x = of_int n * (pow2 k * u)"
    by (simp add: pk)
  then show ?thesis
    by (simp add: x_def j)
qed

lemma fl_of_int: "\<bar>n\<bar> < 2 ^ 53 \<Longrightarrow> fl (of_int n) = of_int n"
  using fl_exact [of n 0] by (simp add: pow2_def)

lemma fl_half_int: "\<bar>n\<bar> < 2 ^ 53 \<Longrightarrow> fl (of_int n / 2) = of_int n / 2"
  using fl_exact [of n "- 1"] by (simp add: pow2_def)

lemma py_float_exact: "\<bar>n\<bar> < 2 ^ 53 \<Longrightarrow> py_float n = of_int n"
  by (simp add: py_float_def fl_of_int)

text \<open>
  The luminance of the script is computed in floats and differs from the exact weighted sum:
  at \<open>(119, 249, 204)\<close> the exact sum is 205 and the computed one is below it.
\<close>

lemma luminance_rounds_below:
  "luminance 119 249 204 < 205 \<and> (299 * 119 + 587 * 249 + 114 * 204 = (205000 :: int))"
  unfolding luminance_def by (simp add: fl_eval)

section \<open>The scan loop of the cropper\<close>

lemma fold_nested_product:
  "fold (\<lambda>y s. fold (\<lambda>x s'. f y x s') xs s) ys s0 = fold (\<lambda>(y, x). f y x) (List.product ys xs) s0"
proof (induction ys arbitrary: s0)
  case Nil
  show ?case by simp
next
  case (Cons y ys)
  have "fold (\<lambda>(y, x). f y x) (map (Pair y) xs) s0 = fold (\<lambda>x s'. f y x s') xs s0"
    by (simp add: fold_map comp_def)
  with Cons show ?case by simp
qed

lemma scan_bounds_product:
  "scan_bounds st lt sw sh pixels =
     fold (\<lambda>(y, x). scan_pixel st lt pixels y x) (List.product [0..<sh] [0..<sw]) (sw, sh, 0, 0)"
  unfolding scan_bounds_def by (rule fold_nested_product)

lemma scan_list_contains:
  assumes "fold (\<lambda>(y, x). scan_pixel st lt pixels y x) ps (a, b, c, d) = (a', b', c', d')"
  shows "a' \<le> a \<and> b' \<le> b \<and> c \<le> c' \<and> d \<le> d' \<and>
         (\<forall>(y, x) \<in> set ps. of_interest st lt (pixels (x, y)) \<longrightarrow>
             a' \<le> x \<and> x \<le> c' \<and> b' \<le> y \<and> y \<le> d')"
  using assms
proof (induction ps arbitrary: a b c d)
  case Nil
  then show ?case by simp
next
  case (Cons p ps)
  obtain y x where p: "p = (y, x)" by (cases p)
  obtain a1 b1 c1 d1 where s: "scan_pixel st lt pixels y x (a, b, c, d) = (a1, b1, c1, d1)"
    by (metis prod_cases4)
  from Cons.prems have "fold (\<lambda>(y, x). scan_pixel st lt pixels y x) ps (a1, b1, c1, d1) = (a', b', c', d')"
    by (simp add: p s)
  from Cons.IH [OF this] have ih: "a' \<le> a1" "b' \<le> b1" "c1 \<le> c'" "d1 \<le> d'"
    "\<forall>(y, x) \<in> set ps. of_interest st lt (pixels (x, y)) \<longrightarrow>
             a' \<le> x \<and> x \<le> c' \<and> b' \<le> y \<and> y \<le> d'"
    by simp_all
  have step: "a1 \<le> a" "b1 \<le> b" "c \<le> c1" "d \<le> d1"
    "of_interest st lt (pixels (x, y)) \<longrightarrow> a1 \<le> x \<and> x \<le> c1 \<and> b1 \<le> y \<and> y \<le> d1"
    using s by (auto simp: scan_pixel_def split: if_splits)
  show ?case
    using ih step by (auto simp: p)
qed

lemma scan_list_attained:
  assumes "fold (\<lambda>(y, x). scan_pixel st lt pixels y x) ps (a, b, c, d) = (a', b', c', d')"
  shows "(a' = a \<or> (\<exists>(y, x) \<in> set ps. of_interest st lt (pixels (x, y)) \<and> x = a')) \<and>
         (b' = b \<or> (\<exists>(y, x) \<in> set ps. of_interest st lt (pixels (x, y)) \<and> y = b')) \<and>
         (c' = c \<or> (\<exists>(y, x) \<in> set ps. of_interest st lt (pixels (x, y)) \<and> x = c')) \<and>
         (d' = d \<or> (\<exists>(y, x) \<in> set ps. of_interest st lt (pixels (x, y)) \<and> y = d'))"
  using assms
proof (induction ps arbitrary: a b c d)
  case Nil
  then show ?case by simp
next
  case (Cons p ps)
  obtain y x where p: "p = (y, x)" by (cases p)
  obtain a1 b1 c1 d1 where s: "scan_pixel st lt pixels y x (a, b, c, d) = (a1, b1, c1, d1)"
    by (metis prod_cases4)
  from Cons.prems have "fold (\<lambda>(y, x). scan_pixel st lt pixels y x) ps (a1, b1, c1, d1) = (a', b', c', d')"
    by (simp add: p s)
  note ih = Cons.IH [OF this]
  have step: "a1 = a \<or> (of_interest st lt (pixels (x, y)) \<and> a1 = x)"
    "b1 = b \<or> (of_interest st lt (pixels (x, y)) \<and> b1 = y)"
    "c1 = c \<or> (of_interest st lt (pixels (x, y)) \<and> c1 = x)"
    "d1 = d \<or> (of_interest st lt (pixels (x, y)) \<and> d1 = y)"
    using s by (auto simp: scan_pixel_def split: if_splits)
  have A: "a' = a \<or> (\<exists>(y, x) \<in> set (p # ps). of_interest st lt (pixels (x, y)) \<and> x = a')"
    using ih step(1) by (auto simp: p)
  have B: "b' = b \<or> (\<exists>(y, x) \<in> set (p # ps). of_interest st lt (pixels (x, y)) \<and> y = b')"
    using ih step(2) by (auto simp: p)
  have C: "c' = c \<or> (\<exists>(y, x) \<in> set (p # ps). of_interest st lt (pixels (x, y)) \<and> x = c')"
    using ih step(3) by (auto simp: p)
  have D: "d' = d \<or> (\<exists>(y, x) \<in> set (p # ps). of_interest st lt (pixels (x, y)) \<and> y = d')"
    using ih step(4) by (auto simp: p)
  from A B C D show ?case by blast
qed

section \<open>Runs on concrete inputs\<close>

lemma upt_eval: "[0..<2] = [0, 1]" "[0..<1] = [0]" "[0..<3] = [0,1,2]" "[0..<4] = [0,1,2,3]"
  by (simp_all add: upt_rec)

lemma small_size_2_1: "small_size CROP_DOWNSCALE_MAX 2 1 = (2, 1)"
  unfolding small_size_def downscale_def CROP_DOWNSCALE_MAX_def Let_def
  by (simp add: fl_eval)

lemma small_size_2_2: "small_size CROP_DOWNSCALE_MAX 2 2 = (2, 2)"
  unfolding small_size_def downscale_def CROP_DOWNSCALE_MAX_def Let_def
  by (simp add: fl_eval)

lemma white_not_interest: "\<not> of_interest CROP_SAT_THRESH CROP_LUM_THRESH (255, 255, 255)"
  unfolding of_interest_def luminance_def CROP_SAT_THRESH_def CROP_LUM_THRESH_def Let_def prod.case
  by (simp add: fl_eval)

lemma black_interest: "of_interest CROP_SAT_THRESH CROP_LUM_THRESH (0, 0, 0)"
  unfolding of_interest_def luminance_def CROP_SAT_THRESH_def CROP_LUM_THRESH_def Let_def prod.case
  by (simp add: fl_eval)

lemma scan_dot: "scan_bounds CROP_SAT_THRESH CROP_LUM_THRESH 2 2 (pix (resize_nearest BILINEAR dot_2x2 (2, 2))) = (1, 0, 1, 0)"
  by (simp add: scan_bounds_def scan_pixel_def upt_eval resize_nearest_def dot_2x2_def white_not_interest black_interest)

lemma crop_white: "crop_to_gradient_tile_square resize_nearest white_2x1 = Inr white_2x1"
  by (simp add: crop_to_gradient_tile_square_def crop_to_gradient_tile_square_with_def small_size_2_1
      scan_bounds_def scan_pixel_def upt_eval resize_nearest_def white_2x1_def new_image_def white_not_interest)

lemma sq_black: "square_box 4 3 (downscale CROP_DOWNSCALE_MAX 4 3) CROP_INSET_PERCENT (0, 0, 3, 2) = (0, 0, 4, 3)"
  unfolding square_box_def downscale_def CROP_DOWNSCALE_MAX_def CROP_INSET_PERCENT_def Let_def prod.case
  by (simp add: fl_eval)

section \<open>The foreground classifier\<close>

text \<open>
  C5: for channels in 0..255, \<open>is_foreground_pixel\<close> is the function that is true on an accent
  pixel (r > 170, g > 80, b < 140, r - b > 80) and otherwise true exactly when
  0.299 r + 0.587 g + 0.114 b, computed in floats as the script does, is below 205.
\<close>

theorem is_foreground_pixel_spec:
  assumes "0 \<le> r" "r \<le> 255" "0 \<le> g" "g \<le> 255" "0 \<le> b" "b \<le> 255"
  shows "is_foreground_pixel r g b =
    (if r > 170 \<and> g > 80 \<and> b < 140 \<and> r - b > 80 then True
     else fadd (fadd (fmul (fl (299 / 1000)) (of_int r)) (fmul (fl (587 / 1000)) (of_int g)))
            (fmul (fl (114 / 1000)) (of_int b)) < 205)"
proof -
  have "py_float r = of_int r" "py_float g = of_int g" "py_float b = of_int b"
    using assms by (simp_all add: py_float_exact)
  then show ?thesis
    by (simp add: is_foreground_pixel_def is_orange_accent_def luminance_def)
qed

theorem is_foreground_pixel_spec_witness:
  "is_foreground_pixel 119 249 204 \<and> \<not> is_foreground_pixel 255 255 255
     \<and> is_foreground_pixel 200 120 30"
  using is_foreground_pixel_spec [of 119 249 204] is_foreground_pixel_spec [of 255 255 255]
    is_foreground_pixel_spec [of 200 120 30]
  by (simp add: fl_eval)

lemma small_size_pos:
  assumes "small_size dmax w h = (sw, sh)"
  shows "0 < sw \<and> 0 < sh"
  using assms by (auto simp: small_size_def Let_def)

lemma scan_bounds_contains:
  assumes "scan_bounds st lt sw sh pixels = (min_x, min_y, max_x, max_y)"
    and "x < sw" "y < sh" "of_interest st lt (pixels (x, y))"
  shows "min_x \<le> x \<and> x \<le> max_x \<and> min_y \<le> y \<and> y \<le> max_y"
proof -
  have "(y, x) \<in> set (List.product [0..<sh] [0..<sw])"
    using assms(2,3) by simp
  with scan_list_contains [OF assms(1) [unfolded scan_bounds_product]] assms(4)
  show ?thesis by blast
qed

lemma bex_product_upt:
  "(\<exists>(y, x) \<in> set (List.product [0..<sh] [0..<sw]). Q x y) = (\<exists>x<sw. \<exists>y<sh. Q x y)"
proof
  assume "\<exists>(y, x) \<in> set (List.product [0..<sh] [0..<sw]). Q x y"
  then obtain p where p: "p \<in> set (List.product [0..<sh] [0..<sw])" "case p of (y, x) \<Rightarrow> Q x y"
    by blast
  obtain y x where yx: "p = (y, x)"
    by (cases p)
  from p yx have q: "Q x y" and "x < sw" "y < sh"
    by simp_all
  then show "\<exists>x<sw. \<exists>y<sh. Q x y"
    by blast
next
  assume "\<exists>x<sw. \<exists>y<sh. Q x y"
  then obtain x y where "x < sw" "y < sh" and q: "Q x y"
    by blast
  then have "(y, x) \<in> set (List.product [0..<sh] [0..<sw])"
    by simp
  with q show "\<exists>(y, x) \<in> set (List.product [0..<sh] [0..<sw]). Q x y"
    by (intro bexI [of _ "(y, x)"]) simp_all
qed

lemma scan_bounds_attained:
  assumes "scan_bounds st lt sw sh pixels = (min_x, min_y, max_x, max_y)"
    and "x0 < sw" "y0 < sh" "of_interest st lt (pixels (x0, y0))"
  shows "(\<exists>x<sw. \<exists>y<sh. of_interest st lt (pixels (x, y)) \<and> x = min_x) \<and>
         (\<exists>x<sw. \<exists>y<sh. of_interest st lt (pixels (x, y)) \<and> y = min_y) \<and>
         (\<exists>x<sw. \<exists>y<sh. of_interest st lt (pixels (x, y)) \<and> x = max_x) \<and>
         (\<exists>x<sw. \<exists>y<sh. of_interest st lt (pixels (x, y)) \<and> y = max_y)"
proof -
  note c = scan_bounds_contains [OF assms]
  note att = scan_list_attained [OF assms(1) [unfolded scan_bounds_product], unfolded bex_product_upt]
  note a = att [THEN conjunct1]
    and b = att [THEN conjunct2, THEN conjunct1]
    and c' = att [THEN conjunct2, THEN conjunct2, THEN conjunct1]
    and d = att [THEN conjunct2, THEN conjunct2, THEN conjunct2]
  have A: "\<exists>x<sw. \<exists>y<sh. of_interest st lt (pixels (x, y)) \<and> x = min_x"
    using a c assms(2) by auto
  have B: "\<exists>x<sw. \<exists>y<sh. of_interest st lt (pixels (x, y)) \<and> y = min_y"
    using b c assms(3) by auto
  have C: "\<exists>x<sw. \<exists>y<sh. of_interest st lt (pixels (x, y)) \<and> x = max_x"
  proof (cases "max_x = 0")
    case True
    with c have "x0 = max_x" by simp
    with assms(2-4) show ?thesis by blast
  next
    case False
    with c' show ?thesis by simp
  qed
  have D: "\<exists>x<sw. \<exists>y<sh. of_interest st lt (pixels (x, y)) \<and> y = max_y"
  proof (cases "max_y = 0")
    case True
    with c have "y0 = max_y" by simp
    with assms(2-4) show ?thesis by blast
  next
    case False
    with d show ?thesis by simp
  qed
  from A B C D show ?thesis by blast
qed

lemma scan_bounds_none:
  assumes "\<forall>x<sw. \<forall>y<sh. \<not> of_interest st lt (pixels (x, y))"
  shows "scan_bounds st lt sw sh pixels = (sw, sh, 0, 0)"
proof -
  obtain a b c d where r: "scan_bounds st lt sw sh pixels = (a, b, c, d)"
    by (metis prod_cases4)
  note att = scan_list_attained [OF r [unfolded scan_bounds_product], unfolded bex_product_upt]
  have "a = sw"
    using att [THEN conjunct1] assms by blast
  moreover have "b = sh"
    using att [THEN conjunct2, THEN conjunct1] assms by blast
  moreover have "c = 0"
    using att [THEN conjunct2, THEN conjunct2, THEN conjunct1] assms by blast
  moreover have "d = 0"
    using att [THEN conjunct2, THEN conjunct2, THEN conjunct2] assms by blast
  ultimately have "a = sw" "b = sh" "c = 0" "d = 0"
    by simp_all
  with r show ?thesis by simp
qed

text \<open>
  C4: the box tracked by the scan contains every pixel of interest of the downscaled image,
  and it lies inside every axis-aligned box that contains them all.
\<close>

theorem scan_bounds_minimal_box:
  assumes "small_size dmax w h = (sw, sh)"
    and "scan_bounds st lt sw sh pixels = (min_x, min_y, max_x, max_y)"
  shows "(\<forall>x<sw. \<forall>y<sh. of_interest st lt (pixels (x, y)) \<longrightarrow>
            min_x \<le> x \<and> x \<le> max_x \<and> min_y \<le> y \<and> y \<le> max_y) \<and>
         (\<forall>a b c d.
            (\<forall>x<sw. \<forall>y<sh. of_interest st lt (pixels (x, y)) \<longrightarrow>
               a \<le> x \<and> x \<le> c \<and> b \<le> y \<and> y \<le> d) \<longrightarrow>
            (\<forall>x y. min_x \<le> x \<and> x \<le> max_x \<and> min_y \<le> y \<and> y \<le> max_y \<longrightarrow>
               a \<le> x \<and> x \<le> c \<and> b \<le> y \<and> y \<le> d))"
proof (intro conjI allI impI)
  fix x y
  assume "x < sw" "y < sh" "of_interest st lt (pixels (x, y))"
  from scan_bounds_contains [OF assms(2) this]
  show "min_x \<le> x" "x \<le> max_x" "min_y \<le> y" "y \<le> max_y"
    by simp_all
next
  fix a b c d x y
  assume box: "\<forall>x<sw. \<forall>y<sh. of_interest st lt (pixels (x, y)) \<longrightarrow>
      a \<le> x \<and> x \<le> c \<and> b \<le> y \<and> y \<le> d"
    and inside: "min_x \<le> x \<and> x \<le> max_x \<and> min_y \<le> y \<and> y \<le> max_y"
  have "\<exists>x0<sw. \<exists>y0<sh. of_interest st lt (pixels (x0, y0))"
  proof (rule ccontr)
    assume "\<not> ?thesis"
    then have "scan_bounds st lt sw sh pixels = (sw, sh, 0, 0)"
      by (intro scan_bounds_none) blast
    with assms(2) inside small_size_pos [OF assms(1)] show False
      by simp
  qed
  then obtain x0 y0 where "x0 < sw" "y0 < sh" "of_interest st lt (pixels (x0, y0))"
    by blast
  note att = scan_bounds_attained [OF assms(2) this]
  from att [THEN conjunct1] box have 1: "a \<le> min_x"
    by blast
  from att [THEN conjunct2, THEN conjunct1] box have 2: "b \<le> min_y"
    by blast
  from att [THEN conjunct2, THEN conjunct2, THEN conjunct1] box have 3: "max_x \<le> c"
    by blast
  from att [THEN conjunct2, THEN conjunct2, THEN conjunct2] box have 4: "max_y \<le> d"
    by blast
  note 1 2 3 4
  with inside show "a \<le> x" "x \<le> c" "b \<le> y" "y \<le> d"
    by simp_all
qed

theorem scan_bounds_minimal_box_witness:
  "scan_bounds CROP_SAT_THRESH CROP_LUM_THRESH 2 2 (pix (resize_nearest BILINEAR dot_2x2 (2, 2)))
      = (1, 0, 1, 0) \<and>
   of_interest CROP_SAT_THRESH CROP_LUM_THRESH (pix (resize_nearest BILINEAR dot_2x2 (2, 2)) (1, 0)) \<and>
   ((1::nat) \<le> 1 \<and> (1::nat) \<le> 1 \<and> (0::nat) \<le> 0 \<and> (0::nat) \<le> 0)"
proof -
  have i: "of_interest CROP_SAT_THRESH CROP_LUM_THRESH
      (pix (resize_nearest BILINEAR dot_2x2 (2, 2)) (1, 0))"
    by (simp add: dot_2x2_def resize_nearest_def black_interest)
  note t = scan_bounds_minimal_box [OF small_size_2_2 scan_dot, THEN conjunct1]
  from t i have "(1::nat) \<le> 1 \<and> (1::nat) \<le> 1 \<and> (0::nat) \<le> 0 \<and> (0::nat) \<le> 0"
    by (elim allE [of _ 1] allE [of _ 0] impE) simp_all
  with scan_dot i show ?thesis
    by (intro conjI) simp_all
qed

section \<open>The two paths of the cropper\<close>

lemma crop_to_gradient_tile_square_unfold:
  assumes "0 < xsize img \<or> 0 < ysize img"
    and "small_size CROP_DOWNSCALE_MAX (int (xsize img)) (int (ysize img)) = (sw, sh)"
    and "scan_bounds CROP_SAT_THRESH CROP_LUM_THRESH sw sh (pix (resize BILINEAR img (sw, sh)))
           = (min_x, min_y, max_x, max_y)"
  shows "crop_to_gradient_tile_square resize img =
    (if max_x \<le> min_x \<or> max_y \<le> min_y then Inr img
     else (case crop img (square_box (int (xsize img)) (int (ysize img))
              (downscale CROP_DOWNSCALE_MAX (int (xsize img)) (int (ysize img)))
              CROP_INSET_PERCENT (min_x, min_y, max_x, max_y)) of
             Inl e \<Rightarrow> Inl e
           | Inr cropped \<Rightarrow> Inr (ensure_square cropped)))"
proof -
  have "max (int (xsize img)) (int (ysize img)) \<noteq> 0"
    using assms(1) by auto
  then show ?thesis
    unfolding crop_to_gradient_tile_square_def crop_to_gradient_tile_square_with_def Let_def
    by (simp add: assms(2,3))
qed

lemma ensure_square_is_square: "xsize (ensure_square cropped) = ysize (ensure_square cropped)"
  by (simp add: ensure_square_def Let_def new_image_def paste_def)

lemma small_size_4_3: "small_size CROP_DOWNSCALE_MAX 4 3 = (4, 3)"
  unfolding small_size_def downscale_def CROP_DOWNSCALE_MAX_def Let_def
  by (simp add: fl_eval)

lemma scan_black:
  "scan_bounds CROP_SAT_THRESH CROP_LUM_THRESH 4 3 (pix (resize_nearest BILINEAR black_4x3 (4, 3)))
     = (0, 0, 3, 2)"
  by (simp add: scan_bounds_def scan_pixel_def upt_eval resize_nearest_def black_4x3_def
      new_image_def black_interest)

lemma crop_black:
  "crop_to_gradient_tile_square resize_nearest black_4x3 =
     (case crop black_4x3 (0, 0, 4, 3) of Inl e \<Rightarrow> Inl e | Inr cropped \<Rightarrow> Inr (ensure_square cropped))"
proof -
  have sz: "xsize black_4x3 = 4" "ysize black_4x3 = 3"
    by (simp_all add: black_4x3_def new_image_def)
  show ?thesis
    using crop_to_gradient_tile_square_unfold [of black_4x3 4 3 resize_nearest 0 0 3 2]
    by (simp add: sz small_size_4_3 scan_black sq_black)
qed

lemma crop_dot: "crop_to_gradient_tile_square resize_nearest dot_2x2 = Inr dot_2x2"
proof -
  have sz: "xsize dot_2x2 = 2" "ysize dot_2x2 = 2"
    by (simp_all add: dot_2x2_def)
  show ?thesis
    using crop_to_gradient_tile_square_unfold [of dot_2x2 2 2 resize_nearest 1 0 1 0]
    by (simp add: sz small_size_2_2 scan_dot)
qed

text \<open>
  C2: when no pixel of the downscaled scan is of interest, the cropper returns its input
  image itself: the same size and the same pixels.
\<close>

theorem crop_fallback_returns_input:
  assumes "0 < xsize img \<or> 0 < ysize img"
    and "small_size CROP_DOWNSCALE_MAX (int (xsize img)) (int (ysize img)) = (sw, sh)"
    and "\<forall>x<sw. \<forall>y<sh.
           \<not> of_interest CROP_SAT_THRESH CROP_LUM_THRESH (pix (resize BILINEAR img (sw, sh)) (x, y))"
  shows "crop_to_gradient_tile_square resize img = Inr img"
  using crop_to_gradient_tile_square_unfold [of img sw sh resize sw sh 0 0]
    assms(1,2) scan_bounds_none [OF assms(3)]
  by simp

theorem crop_fallback_returns_input_witness:
  "crop_to_gradient_tile_square resize_nearest white_2x1 = Inr white_2x1"
proof -
  have sz: "xsize white_2x1 = 2" "ysize white_2x1 = 1"
    by (simp_all add: white_2x1_def new_image_def)
  have px: "pix (resize_nearest BILINEAR white_2x1 sz) p = (255, 255, 255)" for sz p
    by (cases sz; cases p) (simp add: resize_nearest_def white_2x1_def new_image_def)
  have h: "\<forall>x<2. \<forall>y<1. \<not> of_interest CROP_SAT_THRESH CROP_LUM_THRESH
      (pix (resize_nearest BILINEAR white_2x1 (2, 1)) (x, y))"
    by (simp add: px white_not_interest)
  show ?thesis
    by (rule crop_fallback_returns_input [of white_2x1 2 1 resize_nearest, OF _ _ h])
      (simp_all add: sz small_size_2_1)
qed

lemma scan_bounds_spread:
  assumes "scan_bounds st lt sw sh pixels = (min_x, min_y, max_x, max_y)"
  shows "(min_x < max_x) =
           (\<exists>x<sw. \<exists>y<sh. \<exists>x'<sw. \<exists>y'<sh.
              of_interest st lt (pixels (x, y)) \<and> of_interest st lt (pixels (x', y')) \<and> x \<noteq> x')"
    and "(min_y < max_y) =
           (\<exists>x<sw. \<exists>y<sh. \<exists>x'<sw. \<exists>y'<sh.
              of_interest st lt (pixels (x, y)) \<and> of_interest st lt (pixels (x', y')) \<and> y \<noteq> y')"
proof -
  note att = scan_list_attained [OF assms [unfolded scan_bounds_product], unfolded bex_product_upt]
  show "(min_x < max_x) =
           (\<exists>x<sw. \<exists>y<sh. \<exists>x'<sw. \<exists>y'<sh.
              of_interest st lt (pixels (x, y)) \<and> of_interest st lt (pixels (x', y')) \<and> x \<noteq> x')"
  proof
    assume lt: "min_x < max_x"
    with att [THEN conjunct2, THEN conjunct2, THEN conjunct1]
    obtain x1 y1 where p1: "x1 < sw" "y1 < sh" "of_interest st lt (pixels (x1, y1))" "x1 = max_x"
      by auto
    from scan_bounds_attained [OF assms p1(1-3), THEN conjunct1]
    obtain x2 y2 where p2: "x2 < sw" "y2 < sh" "of_interest st lt (pixels (x2, y2))" "x2 = min_x"
      by blast
    from lt p1(4) p2(4) have "x2 \<noteq> x1" by simp
    with p1 p2 show "\<exists>x<sw. \<exists>y<sh. \<exists>x'<sw. \<exists>y'<sh.
        of_interest st lt (pixels (x, y)) \<and> of_interest st lt (pixels (x', y')) \<and> x \<noteq> x'"
      by blast
  next
    assume "\<exists>x<sw. \<exists>y<sh. \<exists>x'<sw. \<exists>y'<sh.
        of_interest st lt (pixels (x, y)) \<and> of_interest st lt (pixels (x', y')) \<and> x \<noteq> x'"
    then obtain x y x' y' where p: "x < sw" "y < sh" "of_interest st lt (pixels (x, y))"
      and q: "x' < sw" "y' < sh" "of_interest st lt (pixels (x', y'))" and ne: "x \<noteq> x'"
      by blast
    from scan_bounds_contains [OF assms p] scan_bounds_contains [OF assms q] ne
    show "min_x < max_x" by linarith
  qed
  show "(min_y < max_y) =
           (\<exists>x<sw. \<exists>y<sh. \<exists>x'<sw. \<exists>y'<sh.
              of_interest st lt (pixels (x, y)) \<and> of_interest st lt (pixels (x', y')) \<and> y \<noteq> y')"
  proof
    assume lt: "min_y < max_y"
    with att [THEN conjunct2, THEN conjunct2, THEN conjunct2]
    obtain x1 y1 where p1: "x1 < sw" "y1 < sh" "of_interest st lt (pixels (x1, y1))" "y1 = max_y"
      by auto
    from scan_bounds_attained [OF assms p1(1-3), THEN conjunct2, THEN conjunct1]
    obtain x2 y2 where p2: "x2 < sw" "y2 < sh" "of_interest st lt (pixels (x2, y2))" "y2 = min_y"
      by blast
    from lt p1(4) p2(4) have "y2 \<noteq> y1" by simp
    with p1 p2 show "\<exists>x<sw. \<exists>y<sh. \<exists>x'<sw. \<exists>y'<sh.
        of_interest st lt (pixels (x, y)) \<and> of_interest st lt (pixels (x', y')) \<and> y \<noteq> y'"
      by blast
  next
    assume "\<exists>x<sw. \<exists>y<sh. \<exists>x'<sw. \<exists>y'<sh.
        of_interest st lt (pixels (x, y)) \<and> of_interest st lt (pixels (x', y')) \<and> y \<noteq> y'"
    then obtain x y x' y' where p: "x < sw" "y < sh" "of_interest st lt (pixels (x, y))"
      and q: "x' < sw" "y' < sh" "of_interest st lt (pixels (x', y'))" and ne: "y \<noteq> y'"
      by blast
    from scan_bounds_contains [OF assms p] scan_bounds_contains [OF assms q] ne
    show "min_y < max_y" by linarith
  qed
qed

text \<open>
  C3, as the code has it: a pixel of interest makes the tracked box non-empty (\<open>min_x < max_x + 1\<close>
  and \<open>min_y < max_y + 1\<close>, the right and bottom edges being exclusive), but the cropper goes on
  to the crop exactly when the pixels of interest span two columns and two rows; otherwise,
  also when they all lie in one column or one row, it returns the input image.
\<close>

theorem crop_proceeds_iff_spread:
  assumes "0 < xsize img \<or> 0 < ysize img"
    and "small_size CROP_DOWNSCALE_MAX (int (xsize img)) (int (ysize img)) = (sw, sh)"
    and "scan_bounds CROP_SAT_THRESH CROP_LUM_THRESH sw sh (pix (resize BILINEAR img (sw, sh)))
           = (min_x, min_y, max_x, max_y)"
  shows "((\<exists>x<sw. \<exists>y<sh.
             of_interest CROP_SAT_THRESH CROP_LUM_THRESH (pix (resize BILINEAR img (sw, sh)) (x, y)))
           \<longrightarrow> min_x < max_x + 1 \<and> min_y < max_y + 1) \<and>
         ((min_x < max_x \<and> min_y < max_y) =
            ((\<exists>x<sw. \<exists>y<sh. \<exists>x'<sw. \<exists>y'<sh.
                of_interest CROP_SAT_THRESH CROP_LUM_THRESH (pix (resize BILINEAR img (sw, sh)) (x, y)) \<and>
                of_interest CROP_SAT_THRESH CROP_LUM_THRESH (pix (resize BILINEAR img (sw, sh)) (x', y')) \<and>
                x \<noteq> x') \<and>
             (\<exists>x<sw. \<exists>y<sh. \<exists>x'<sw. \<exists>y'<sh.
                of_interest CROP_SAT_THRESH CROP_LUM_THRESH (pix (resize BILINEAR img (sw, sh)) (x, y)) \<and>
                of_interest CROP_SAT_THRESH CROP_LUM_THRESH (pix (resize BILINEAR img (sw, sh)) (x', y')) \<and>
                y \<noteq> y'))) \<and>
         (min_x < max_x \<and> min_y < max_y \<longrightarrow>
            crop_to_gradient_tile_square resize img =
              (case crop img (square_box (int (xsize img)) (int (ysize img))
                  (downscale CROP_DOWNSCALE_MAX (int (xsize img)) (int (ysize img)))
                  CROP_INSET_PERCENT (min_x, min_y, max_x, max_y)) of
                 Inl e \<Rightarrow> Inl e
               | Inr cropped \<Rightarrow> Inr (ensure_square cropped))) \<and>
         (\<not> (min_x < max_x \<and> min_y < max_y) \<longrightarrow>
            crop_to_gradient_tile_square resize img = Inr img)"
proof -
  note unf = crop_to_gradient_tile_square_unfold
    [of img sw sh resize min_x min_y max_x max_y, OF assms]
  show ?thesis
  proof (intro conjI impI)
  assume "\<exists>x<sw. \<exists>y<sh.
     of_interest CROP_SAT_THRESH CROP_LUM_THRESH (pix (resize BILINEAR img (sw, sh)) (x, y))"
  then obtain x y where "x < sw" "y < sh"
    "of_interest CROP_SAT_THRESH CROP_LUM_THRESH (pix (resize BILINEAR img (sw, sh)) (x, y))"
    by blast
  from scan_bounds_contains [OF assms(3) this]
  show "min_x < max_x + 1" "min_y < max_y + 1"
    by simp_all
next
  show "(min_x < max_x \<and> min_y < max_y) =
            ((\<exists>x<sw. \<exists>y<sh. \<exists>x'<sw. \<exists>y'<sh.
                of_interest CROP_SAT_THRESH CROP_LUM_THRESH (pix (resize BILINEAR img (sw, sh)) (x, y)) \<and>
                of_interest CROP_SAT_THRESH CROP_LUM_THRESH (pix (resize BILINEAR img (sw, sh)) (x', y')) \<and>
                x \<noteq> x') \<and>
             (\<exists>x<sw. \<exists>y<sh. \<exists>x'<sw. \<exists>y'<sh.
                of_interest CROP_SAT_THRESH CROP_LUM_THRESH (pix (resize BILINEAR img (sw, sh)) (x, y)) \<and>
                of_interest CROP_SAT_THRESH CROP_LUM_THRESH (pix (resize BILINEAR img (sw, sh)) (x', y')) \<and>
                y \<noteq> y'))"
    by (simp only: scan_bounds_spread [OF assms(3)])
next
  assume "min_x < max_x \<and> min_y < max_y"
  then show "crop_to_gradient_tile_square resize img =
      (case crop img (square_box (int (xsize img)) (int (ysize img))
          (downscale CROP_DOWNSCALE_MAX (int (xsize img)) (int (ysize img)))
          CROP_INSET_PERCENT (min_x, min_y, max_x, max_y)) of
         Inl e \<Rightarrow> Inl e
       | Inr cropped \<Rightarrow> Inr (ensure_square cropped))"
    by (simp add: unf)
next
  assume "\<not> (min_x < max_x \<and> min_y < max_y)"
  then show "crop_to_gradient_tile_square resize img = Inr img"
    by (auto simp add: unf)
  qed
qed

theorem crop_proceeds_iff_spread_witness:
  "crop_to_gradient_tile_square resize_nearest black_4x3 =
     (case crop black_4x3 (0, 0, 4, 3) of Inl e \<Rightarrow> Inl e | Inr cropped \<Rightarrow> Inr (ensure_square cropped))"
proof -
  have sz: "xsize black_4x3 = 4" "ysize black_4x3 = 3"
    by (simp_all add: black_4x3_def new_image_def)
  have "crop_to_gradient_tile_square resize_nearest black_4x3 =
      (case crop black_4x3 (square_box (int (xsize black_4x3)) (int (ysize black_4x3))
          (downscale CROP_DOWNSCALE_MAX (int (xsize black_4x3)) (int (ysize black_4x3)))
          CROP_INSET_PERCENT (0, 0, 3, 2)) of
         Inl e \<Rightarrow> Inl e
       | Inr cropped \<Rightarrow> Inr (ensure_square cropped))"
    by (rule crop_proceeds_iff_spread [of black_4x3 4 3 resize_nearest 0 0 3 2,
          THEN conjunct2, THEN conjunct2, THEN conjunct1, THEN mp])
      (simp_all add: sz small_size_4_3 scan_black)
  then show ?thesis
    by (simp add: sz sq_black)
qed

text \<open>
  The claim as stated fails on a 2 by 2 image with a single dark pixel: that pixel is of
  interest in the scan, and the cropper returns the input image.
\<close>

theorem crop_single_pixel_counterexample:
  "small_size CROP_DOWNSCALE_MAX (int (xsize dot_2x2)) (int (ysize dot_2x2)) = (2, 2) \<and>
   of_interest CROP_SAT_THRESH CROP_LUM_THRESH (pix (resize_nearest BILINEAR dot_2x2 (2, 2)) (1, 0)) \<and>
   crop_to_gradient_tile_square resize_nearest dot_2x2 = Inr dot_2x2"
proof -
  have a: "small_size CROP_DOWNSCALE_MAX (int (xsize dot_2x2)) (int (ysize dot_2x2)) = (2, 2)"
    by (simp add: dot_2x2_def small_size_2_2)
  have b: "of_interest CROP_SAT_THRESH CROP_LUM_THRESH
      (pix (resize_nearest BILINEAR dot_2x2 (2, 2)) (1, 0))"
    by (simp add: dot_2x2_def resize_nearest_def black_interest)
  from a b crop_dot show ?thesis
    by (intro conjI)
qed

text \<open>
  C1, as the code has it: on the crop path the returned image is square; on the fallback path
  the cropper returns its input as it is, so the output is square when the input is.
\<close>

theorem crop_square_unless_fallback:
  assumes "crop_to_gradient_tile_square resize img = Inr out"
    and "small_size CROP_DOWNSCALE_MAX (int (xsize img)) (int (ysize img)) = (sw, sh)"
    and "scan_bounds CROP_SAT_THRESH CROP_LUM_THRESH sw sh (pix (resize BILINEAR img (sw, sh)))
           = (min_x, min_y, max_x, max_y)"
  shows "(min_x < max_x \<and> min_y < max_y \<longrightarrow> xsize out = ysize out) \<and>
         (\<not> (min_x < max_x \<and> min_y < max_y) \<longrightarrow> out = img) \<and>
         (xsize img = ysize img \<longrightarrow> xsize out = ysize out)"
proof -
  have nz: "0 < xsize img \<or> 0 < ysize img"
  proof (rule ccontr)
    assume "\<not> ?thesis"
    then have "crop_to_gradient_tile_square resize img = Inl ZeroDivisionError"
      by (simp add: crop_to_gradient_tile_square_def crop_to_gradient_tile_square_with_def)
    with assms(1) show False by simp
  qed
  note unf = crop_to_gradient_tile_square_unfold
    [of img sw sh resize min_x min_y max_x max_y, OF nz assms(2,3)]
  have sq: "xsize out = ysize out" if "min_x < max_x \<and> min_y < max_y"
    using that assms(1) unfolding unf
    by (auto split: sum.splits simp: ensure_square_is_square)
  have same: "out = img" if "\<not> (min_x < max_x \<and> min_y < max_y)"
    using that assms(1) unfolding unf by auto
  from sq same show ?thesis
    by blast
qed

theorem crop_square_unless_fallback_witness:
  "(case crop_to_gradient_tile_square resize_nearest black_4x3 of
      Inl e \<Rightarrow> False
    | Inr out \<Rightarrow> xsize out = 4 \<and> ysize out = 4)"
proof -
  have sz: "xsize black_4x3 = 4" "ysize black_4x3 = 3"
    by (simp_all add: black_4x3_def new_image_def)
  obtain c where c: "crop black_4x3 (0, 0, 4, 3) = Inr c" "xsize c = 4" "ysize c = 3"
    by (simp add: crop_def)
  have r: "crop_to_gradient_tile_square resize_nearest black_4x3 = Inr (ensure_square c)"
    by (simp add: crop_black c)
  have "xsize (ensure_square c) = ysize (ensure_square c)"
    by (rule crop_square_unless_fallback [of resize_nearest black_4x3 "ensure_square c" 4 3 0 0 3 2,
          THEN conjunct1, THEN mp])
      (simp_all add: r sz small_size_4_3 scan_black)
  moreover have "xsize (ensure_square c) = 4"
    by (simp add: ensure_square_def Let_def c new_image_def paste_def)
  ultimately show ?thesis
    by (simp add: r)
qed

text \<open>
  The claim as stated fails on the fallback path: a white image 2 wide and 1 high comes back
  as it is, and it is not square.
\<close>

theorem crop_fallback_not_square_counterexample:
  "crop_to_gradient_tile_square resize_nearest white_2x1 = Inr white_2x1 \<and>
   xsize white_2x1 \<noteq> ysize white_2x1"
proof -
  have "xsize white_2x1 \<noteq> ysize white_2x1"
    by (simp add: white_2x1_def new_image_def)
  with crop_white show ?thesis
    by (intro conjI)
qed

section \<open>The recolouring loops\<close>

text \<open>
  A loop over pixel positions whose body writes at most the pixel it visits, with a value
  that depends on the other buffer only through that pixel: after the loop, every visited
  pixel holds what the body writes there on the initial buffer.
\<close>

lemma fold_pixelwise:
  assumes "distinct ps"
    and frame: "\<And>y x rp q. q \<noteq> (x, y) \<Longrightarrow> g y x rp q = rp q"
    and local: "\<And>y x rp rp'. rp (x, y) = rp' (x, y) \<Longrightarrow> g y x rp (x, y) = g y x rp' (x, y)"
  shows "fold (\<lambda>(y, x). g y x) ps rp0 (x, y) =
           (if (y, x) \<in> set ps then g y x rp0 (x, y) else rp0 (x, y))"
  using assms(1)
proof (induction ps arbitrary: rp0)
  case Nil
  show ?case by simp
next
  case (Cons p ps)
  obtain y0 x0 where p: "p = (y0, x0)" by (cases p)
  from Cons.prems have d: "distinct ps" "(y0, x0) \<notin> set ps"
    by (simp_all add: p)
  have step: "fold (\<lambda>(y, x). g y x) (p # ps) rp0 (x, y) =
      (if (y, x) \<in> set ps then g y x (g y0 x0 rp0) (x, y) else g y0 x0 rp0 (x, y))"
    using Cons.IH [OF d(1), of "g y0 x0 rp0"] by (simp add: p)
  show ?case
  proof (cases "(y, x) \<in> set ps")
    case True
    with d(2) have ne: "(x, y) \<noteq> (x0, y0)" by auto
    then have "g y0 x0 rp0 (x, y) = rp0 (x, y)"
      by (rule frame)
    then have "g y x (g y0 x0 rp0) (x, y) = g y x rp0 (x, y)"
      by (rule local)
    with True step show ?thesis
      by simp
  next
    case False
    show ?thesis
    proof (cases "(y, x) = (y0, x0)")
      case True
      with False step show ?thesis by (simp add: p)
    next
      case ne: False
      then have "(x, y) \<noteq> (x0, y0)" by auto
      then have "g y0 x0 rp0 (x, y) = rp0 (x, y)"
        by (rule frame)
      with False ne step show ?thesis by (auto simp: p)
    qed
  qed
qed

lemma loop_pixelwise:
  assumes frame: "\<And>y x rp q. q \<noteq> (x, y) \<Longrightarrow> g y x rp q = rp q"
    and local: "\<And>y x rp rp'. rp (x, y) = rp' (x, y) \<Longrightarrow> g y x rp (x, y) = g y x rp' (x, y)"
    and "x < w" "y < h"
  shows "fold (\<lambda>y rp. fold (\<lambda>x rp'. g y x rp') [0..<w] rp) [0..<h] rp0 (x, y) = g y x rp0 (x, y)"
proof -
  have "distinct (List.product [0..<h] [0..<w])"
    by (simp add: distinct_product)
  from fold_pixelwise [of "List.product [0..<h] [0..<w]" g, OF this frame local] assms(3,4)
  show ?thesis
    by (simp add: fold_nested_product)
qed

lemma dark_pixel_frame: "q \<noteq> (x, y) \<Longrightarrow> dark_pixel sp y x rp q = rp q"
  by (auto simp: dark_pixel_def Let_def split: prod.splits)

lemma dark_pixel_local:
  "rp (x, y) = rp' (x, y) \<Longrightarrow> dark_pixel sp y x rp (x, y) = dark_pixel sp y x rp' (x, y)"
  by (auto simp: dark_pixel_def Let_def split: prod.splits)

lemma tinted_pixel_frame: "q \<noteq> (x, y) \<Longrightarrow> tinted_pixel sp y x rp q = rp q"
  by (auto simp: tinted_pixel_def Let_def split: prod.splits)

lemma tinted_pixel_local:
  "rp (x, y) = rp' (x, y) \<Longrightarrow> tinted_pixel sp y x rp (x, y) = tinted_pixel sp y x rp' (x, y)"
  by (auto simp: tinted_pixel_def Let_def split: prod.splits)

lemma create_dark_icon_pixel:
  assumes "x < xsize src" "y < ysize src"
  shows "pix (create_dark_icon src) (x, y) =
    dark_pixel (pix src) y x (pix (create_dark_gradient (xsize src, ysize src))) (x, y)"
  unfolding create_dark_icon_def Let_def
  using loop_pixelwise [of "dark_pixel (pix src)", OF dark_pixel_frame dark_pixel_local assms]
  by simp

lemma create_tinted_icon_pixel:
  assumes "x < xsize src" "y < ysize src"
  shows "pix (create_tinted_icon src) (x, y) = tinted_pixel (pix src) y x (\<lambda>_. (0, 0, 0)) (x, y)"
  unfolding create_tinted_icon_def Let_def
  using loop_pixelwise [of "tinted_pixel (pix src)", OF tinted_pixel_frame tinted_pixel_local assms]
  by (simp add: new_image_def)

lemma fold_draw_line:
  "xsize (fold (\<lambda>y g. draw_line g y (c y)) ys im) = xsize im \<and>
   ysize (fold (\<lambda>y g. draw_line g y (c y)) ys im) = ysize im \<and>
   pix (fold (\<lambda>y g. draw_line g y (c y)) ys im) (x, y) =
     (if y \<in> set ys \<and> x < xsize im then c y else pix im (x, y))"
proof (induction ys arbitrary: im)
  case Nil
  show ?case by simp
next
  case (Cons y0 ys)
  have d: "xsize (draw_line im y0 (c y0)) = xsize im" "ysize (draw_line im y0 (c y0)) = ysize im"
    "pix (draw_line im y0 (c y0)) (x', y') = (if y' = y0 \<and> x' < xsize im then c y0 else pix im (x', y'))"
    for x' y'
    by (simp_all add: draw_line_def)
  show ?case
    using Cons.IH [of "draw_line im y0 (c y0)"] by (auto simp: d)
qed

lemma create_dark_gradient_size:
  "xsize (create_dark_gradient (w, h)) = w" "ysize (create_dark_gradient (w, h)) = h"
  using fold_draw_line [of "\<lambda>y. let ratio = py_truediv (int y) (int h);
      v = py_int (fadd (py_float 49) (fmul (py_float (20 - 49)) ratio)) in (v, v, v)"
      "[0..<h]" "new_image (w, h) (0, 0, 0)"]
  by (simp_all add: create_dark_gradient_def Let_def new_image_def)

lemma create_dark_gradient_pixel:
  assumes "x < w" "y < h"
  shows "pix (create_dark_gradient (w, h)) (x, y) =
    (let v = py_int (fadd (py_float 49) (fmul (py_float (20 - 49)) (py_truediv (int y) (int h))))
     in (v, v, v))"
  using fold_draw_line [of "\<lambda>y. let ratio = py_truediv (int y) (int h);
      v = py_int (fadd (py_float 49) (fmul (py_float (20 - 49)) ratio)) in (v, v, v)"
      "[0..<h]" "new_image (w, h) (0, 0, 0)" x y] assms
  by (simp add: create_dark_gradient_def Let_def new_image_def)

lemma create_dark_icon_size:
  "xsize (create_dark_icon src) = xsize src" "ysize (create_dark_icon src) = ysize src"
  by (simp_all add: create_dark_icon_def Let_def create_dark_gradient_size)

lemma create_tinted_icon_size:
  "xsize (create_tinted_icon src) = xsize src" "ysize (create_tinted_icon src) = ysize src"
  by (simp_all add: create_tinted_icon_def Let_def new_image_def)

section \<open>The recoloured variants\<close>

text \<open>
  C6: where the source pixel is background, the dark variant has the pixel of the synthetic
  gradient, which is the grey of its row, and the tinted variant has \<open>(0, 0, 0)\<close>.
\<close>

theorem background_pixels_untouched:
  assumes "x < xsize src" "y < ysize src"
    and "pix src (x, y) = (r, g, b)"
    and "\<not> is_foreground_pixel r g b"
  shows "pix (create_dark_icon src) (x, y) = pix (create_dark_gradient (xsize src, ysize src)) (x, y) \<and>
         pix (create_dark_gradient (xsize src, ysize src)) (x, y) =
           (let v = py_int (fadd (py_float 49)
                      (fmul (py_float (20 - 49)) (py_truediv (int y) (int (ysize src)))))
            in (v, v, v)) \<and>
         pix (create_tinted_icon src) (x, y) = (0, 0, 0)"
proof (intro conjI)
  show "pix (create_dark_icon src) (x, y) = pix (create_dark_gradient (xsize src, ysize src)) (x, y)"
    using assms(3,4) by (simp add: create_dark_icon_pixel [OF assms(1,2)] dark_pixel_def)
  show "pix (create_dark_gradient (xsize src, ysize src)) (x, y) =
      (let v = py_int (fadd (py_float 49)
                 (fmul (py_float (20 - 49)) (py_truediv (int y) (int (ysize src)))))
       in (v, v, v))"
    by (rule create_dark_gradient_pixel [OF assms(1,2)])
  show "pix (create_tinted_icon src) (x, y) = (0, 0, 0)"
    using assms(3,4) by (simp add: create_tinted_icon_pixel [OF assms(1,2)] tinted_pixel_def)
qed

lemma white_background: "\<not> is_foreground_pixel 255 255 255"
  unfolding is_foreground_pixel_def is_orange_accent_def luminance_def Let_def
  by (simp add: fl_eval)

theorem background_pixels_untouched_witness:
  "pix (create_dark_icon white_2x1) (1, 0) = (49, 49, 49) \<and>
   pix (create_tinted_icon white_2x1) (1, 0) = (0, 0, 0)"
proof -
  have h: "1 < xsize white_2x1" "0 < ysize white_2x1" "pix white_2x1 (1, 0) = (255, 255, 255)"
    by (simp_all add: white_2x1_def new_image_def)
  note t = background_pixels_untouched [OF h white_background]
  have v: "(let v = py_int (fadd (py_float 49)
                      (fmul (py_float (20 - 49)) (py_truediv (int 0) (int (ysize white_2x1)))))
            in (v, v, v)) = (49, 49, 49)"
    by (simp add: white_2x1_def new_image_def Let_def fl_eval)
  have "pix (create_dark_icon white_2x1) (1, 0) = (49, 49, 49)"
    by (rule trans [OF t [THEN conjunct1] trans [OF t [THEN conjunct2, THEN conjunct1] v]])
  then show ?thesis
    by (rule conjI [OF _ t [THEN conjunct2, THEN conjunct2]])
qed

text \<open>
  C7: a foreground pixel that is not an accent becomes \<open>(240, 240, 240)\<close> in the dark variant
  when its luminance is below 120, and otherwise the grey \<open>v\<close>, the integer part of the
  luminance times 0.55, clamped to 70..140.
\<close>

theorem dark_foreground_gray:
  assumes "x < xsize src" "y < ysize src"
    and "pix src (x, y) = (r, g, b)"
    and "is_foreground_pixel r g b"
    and "\<not> is_orange_accent r g b"
  shows "pix (create_dark_icon src) (x, y) =
    (if luminance r g b < 120 then (240, 240, 240)
     else (let v = max 70 (min 140 (py_int (fmul (luminance r g b) (fl (55 / 100))))) in (v, v, v)))"
  using assms(3,4,5)
  by (simp add: create_dark_icon_pixel [OF assms(1,2)] dark_pixel_def Let_def)

lemma luminance_gray: "luminance 150 150 150 = 150"
  unfolding luminance_def by (simp add: fl_eval)

lemma luminance_black: "luminance 0 0 0 = 0"
  unfolding luminance_def by (simp add: fl_eval)

theorem dark_foreground_gray_witness:
  "pix (create_dark_icon black_4x3) (0, 0) = (240, 240, 240) \<and>
   pix (create_dark_icon gray_1x1) (0, 0) = (82, 82, 82)"
proof -
  have b: "0 < xsize black_4x3" "0 < ysize black_4x3" "pix black_4x3 (0, 0) = (0, 0, 0)"
    by (simp_all add: black_4x3_def new_image_def)
  have g: "0 < xsize gray_1x1" "0 < ysize gray_1x1" "pix gray_1x1 (0, 0) = (150, 150, 150)"
    by (simp_all add: gray_1x1_def new_image_def)
  have fb: "is_foreground_pixel 0 0 0" "\<not> is_orange_accent 0 0 0"
    by (simp_all add: is_foreground_pixel_def is_orange_accent_def luminance_black)
  have fg: "is_foreground_pixel 150 150 150" "\<not> is_orange_accent 150 150 150"
    by (simp_all add: is_foreground_pixel_def is_orange_accent_def luminance_gray)
  have vb: "(if luminance 0 0 0 < 120 then (240, 240, 240)
     else (let v = max 70 (min 140 (py_int (fmul (luminance 0 0 0) (fl (55 / 100))))) in (v, v, v)))
     = (240, 240, 240)"
    by (simp add: luminance_black)
  have vg: "(if luminance 150 150 150 < 120 then (240, 240, 240)
     else (let v = max 70 (min 140 (py_int (fmul (luminance 150 150 150) (fl (55 / 100))))) in (v, v, v)))
     = (82, 82, 82)"
    by (simp add: luminance_gray Let_def fl_eval)
  show ?thesis
    by (rule conjI [OF trans [OF dark_foreground_gray [OF b fb] vb]
          trans [OF dark_foreground_gray [OF g fg] vg]])
qed

text \<open>
  C8: the pixel \<open>(200, 120, 30)\<close> is an accent pixel; it becomes \<open>(210, 126, 30)\<close> in the dark
  variant (R and G times 1.05, clamped to 255, B unchanged) and \<open>(255, 255, 255)\<close> in the
  tinted variant.
\<close>

theorem accent_pixel_recolor:
  assumes "x < xsize src" "y < ysize src"
    and "pix src (x, y) = (200, 120, 30)"
  shows "is_orange_accent 200 120 30 \<and>
         pix (create_dark_icon src) (x, y) =
           (min 255 (py_int (fmul (py_float 200) (fl (105 / 100)))),
            min 255 (py_int (fmul (py_float 120) (fl (105 / 100)))), 30) \<and>
         pix (create_dark_icon src) (x, y) = (210, 126, 30) \<and>
         pix (create_tinted_icon src) (x, y) = (255, 255, 255)"
proof -
  have a: "is_orange_accent 200 120 30"
    by (simp add: is_orange_accent_def)
  then have f: "is_foreground_pixel 200 120 30"
    by (simp add: is_foreground_pixel_def)
  have d: "pix (create_dark_icon src) (x, y) =
           (min 255 (py_int (fmul (py_float 200) (fl (105 / 100)))),
            min 255 (py_int (fmul (py_float 120) (fl (105 / 100)))), 30)"
    using assms(3) a f by (simp add: create_dark_icon_pixel [OF assms(1,2)] dark_pixel_def Let_def)
  have t: "pix (create_tinted_icon src) (x, y) = (255, 255, 255)"
    using assms(3) a f by (simp add: create_tinted_icon_pixel [OF assms(1,2)] tinted_pixel_def Let_def)
  have m: "min 255 (py_int (fmul (py_float 200) (fl (105 / 100)))) = 210"
    "min 255 (py_int (fmul (py_float 120) (fl (105 / 100)))) = 126"
    by (simp_all add: fl_eval)
  have d2: "pix (create_dark_icon src) (x, y) = (210, 126, 30)"
    by (simp only: d m)
  from a d d2 t show ?thesis
    by (intro conjI)
qed

theorem accent_pixel_recolor_witness:
  "pix (create_dark_icon accent_1x1) (0, 0) = (210, 126, 30) \<and>
   pix (create_tinted_icon accent_1x1) (0, 0) = (255, 255, 255)"
proof -
  have s: "0 < xsize accent_1x1" "0 < ysize accent_1x1" "pix accent_1x1 (0, 0) = (200, 120, 30)"
    by (simp_all add: accent_1x1_def new_image_def)
  note t = accent_pixel_recolor [OF s]
  show ?thesis
    by (rule conjI [OF t [THEN conjunct2, THEN conjunct2, THEN conjunct1]
          t [THEN conjunct2, THEN conjunct2, THEN conjunct2]])
qed

section \<open>The sizes of the three variants\<close>

lemma resize_nearest_size:
  "xsize (resize_nearest f im (w, h)) = w \<and> ysize (resize_nearest f im (w, h)) = h"
  by (simp add: resize_nearest_def)

text \<open>
  C9: with a resizer that returns an image of the size it is asked for, the three images that
  \<open>main\<close> produces are 1024 by 1024: the light one is resized to that, the dark and the
  tinted ones are made at the size of the light one.
\<close>

theorem main_variants_1024:
  assumes "\<And>f im w h. xsize (resize f im (w, h)) = w \<and> ysize (resize f im (w, h)) = h"
    and "main resize original = Inr (light, dark, tinted)"
  shows "xsize light = 1024 \<and> ysize light = 1024 \<and>
         xsize dark = 1024 \<and> ysize dark = 1024 \<and>
         xsize tinted = 1024 \<and> ysize tinted = 1024 \<and>
         dark = create_dark_icon light \<and> tinted = create_tinted_icon light"
proof -
  from assms(2) obtain cropped where
    c: "crop_to_gradient_tile_square resize original = Inr cropped"
    and l: "light = resize LANCZOS cropped (TARGET_SIZE, TARGET_SIZE)"
    and d: "dark = create_dark_icon light" and t: "tinted = create_tinted_icon light"
    by (auto simp: main_def create_light_icon_def split: sum.splits)
  have "xsize light = 1024" "ysize light = 1024"
    using assms(1) [of LANCZOS cropped TARGET_SIZE TARGET_SIZE]
    by (simp_all add: l TARGET_SIZE_def)
  then show ?thesis
    by (simp add: d t create_dark_icon_size create_tinted_icon_size)
qed

theorem main_variants_1024_witness:
  "(case main resize_nearest white_2x1 of
      Inl e \<Rightarrow> False
    | Inr (light, dark, tinted) \<Rightarrow>
        xsize light = 1024 \<and> ysize light = 1024 \<and> xsize dark = 1024 \<and> ysize dark = 1024 \<and>
        xsize tinted = 1024 \<and> ysize tinted = 1024)"
proof -
  define light where "light = resize_nearest LANCZOS white_2x1 (TARGET_SIZE, TARGET_SIZE)"
  have m: "main resize_nearest white_2x1 = Inr (light, create_dark_icon light, create_tinted_icon light)"
    by (simp add: main_def create_light_icon_def crop_white light_def)
  from main_variants_1024 [of resize_nearest, OF resize_nearest_size m]
  show ?thesis
    by (simp add: m)
qed

section \<open>The crop rectangle\<close>

lemma fl_lower: "0 \<le> x \<Longrightarrow> x - x / 2 ^ 53 \<le> fl x"
  using fl_err [of x] by linarith

lemma fl_upper: "0 \<le> x \<Longrightarrow> fl x \<le> x + x / 2 ^ 53"
  using fl_err [of x] by linarith

lemma fl_nonneg: "0 \<le> x \<Longrightarrow> 0 \<le> fl x"
proof -
  assume x: "0 \<le> x"
  have "x / 2 ^ 53 \<le> x / 1"
    using x by (intro divide_left_mono) simp_all
  with fl_lower [OF x] show ?thesis by simp
qed

text \<open>Below \<open>2^32\<close> a rounding moves a number by less than \<open>2^-21\<close>.\<close>

lemma fl_near:
  assumes "0 \<le> x" "x \<le> 2 ^ 32"
  shows "\<bar>fl x - x\<bar> \<le> 1 / 2 ^ 21"
proof -
  have "x / 2 ^ 53 \<le> 2 ^ 32 / 2 ^ 53"
    using assms(2) by (rule divide_right_mono) simp
  also have "\<dots> = (1 / 2 ^ 21 :: real)"
    by simp
  finally show ?thesis
    using fl_err [of x] assms(1) by simp
qed

lemma py_round_lower: "x - 1 / 2 \<le> of_int (py_round x)"
  using py_round_err [of x] by linarith

lemma py_round_upper: "of_int (py_round x) \<le> x + 1 / 2"
  using py_round_err [of x] by linarith

lemma downscale_bounds:
  assumes "1 \<le> max w h" "max w h < 2 ^ 31"
  shows "1 / 2 ^ 23 \<le> downscale CROP_DOWNSCALE_MAX w h \<and> downscale CROP_DOWNSCALE_MAX w h \<le> 1"
proof -
  define m where "m = max w h"
  define x :: real where "x = 700 / of_int m"
  have m: "1 \<le> m" "m < 2 ^ 31"
    using assms by (simp_all add: m_def)
  then have mr: "1 \<le> real_of_int m" "real_of_int m \<le> 2 ^ 31"
    by simp_all
  have pf: "py_float m = of_int m" "py_float 700 = 700"
    using m by (simp_all add: py_float_exact)
  have d: "downscale CROP_DOWNSCALE_MAX w h = min 1 (fl x)"
    by (simp add: downscale_def CROP_DOWNSCALE_MAX_def pf fdiv_def x_def m_def [symmetric])
  have "700 / 2 ^ 31 \<le> x"
    unfolding x_def using mr by (intro divide_left_mono) simp_all
  then have x: "0 \<le> x" "1 / 2 ^ 22 \<le> x"
    by simp_all
  have "x / 2 ^ 53 \<le> x / 2"
    using x(1) by (intro divide_left_mono) simp_all
  with fl_lower [OF x(1)] x(2) have "1 / 2 ^ 23 \<le> fl x"
    by simp
  then show ?thesis
    by (simp add: d)
qed

lemma inv_scale_bounds:
  assumes "1 / 2 ^ 23 \<le> s" "s \<le> 1"
  shows "99 / 100 \<le> fdiv 1 s \<and> fdiv 1 s \<le> 2 ^ 24 \<and>
         s * fdiv 1 s \<le> 1 + 1 / 2 ^ 53 \<and> 1 - 1 / 2 ^ 53 \<le> s * fdiv 1 s"
proof -
  define i where "i = fdiv 1 s"
  have s: "0 < s"
    using assms(1) by (rule less_le_trans [rotated]) simp
  have i: "i = fl (1 / s)"
    by (simp add: i_def fdiv_def)
  have p: "0 \<le> 1 / s" "1 \<le> 1 / s" "1 / s \<le> 2 ^ 23"
    using s assms by (simp_all add: field_simps)
  from fl_lower [OF p(1)] fl_upper [OF p(1)]
  have b: "1 / s - 1 / s / 2 ^ 53 \<le> i" "i \<le> 1 / s + 1 / s / 2 ^ 53"
    by (simp_all add: i)
  have "s * (1 / s - 1 / s / 2 ^ 53) \<le> s * i" "s * i \<le> s * (1 / s + 1 / s / 2 ^ 53)"
    using b s by (simp_all only: mult_le_cancel_left_pos)
  then have si: "1 - 1 / 2 ^ 53 \<le> s * i" "s * i \<le> 1 + 1 / 2 ^ 53"
    using s by (simp_all add: field_simps)
  have "1 / s / 2 ^ 53 \<le> 1 / s / 100"
    using p(1) by (intro divide_left_mono) simp_all
  with b(1) p(2) have lo: "99 / 100 \<le> i"
    by simp
  have "1 / s / 2 ^ 53 \<le> 1 / s / 1"
    using p(1) by (intro divide_left_mono) simp_all
  with b(2) p(3) have hi: "i \<le> 2 ^ 24"
    by simp
  from lo hi si show ?thesis
    by (simp add: i_def)
qed

text \<open>
  One axis of the scaled-back box: for scan bounds \<open>a < b\<close> inside the downscaled side, the
  rounded edges \<open>l = round(a * inv)\<close> and \<open>r = round((b + 1) * inv)\<close> are ordered, and they
  stay close to the source side \<open>w\<close>.
\<close>

lemma axis_bounds:
  assumes wb: "0 \<le> w" "w < 2 ^ 31"
    and sb: "1 / 2 ^ 23 \<le> s" "s \<le> 1"
    and ab: "a < b"
    and sw: "int b + 1 \<le> max 1 (py_round (fmul (py_float w) s))"
    and i: "i = fdiv 1 s"
    and l: "l = py_round (fmul (py_float (int a)) i)"
    and r: "r = py_round (fmul (py_float (int b + 1)) i)"
  shows "0 \<le> l \<and> l + 1 \<le> r \<and> r \<le> 2 ^ 32 \<and>
         real_of_int r \<le> of_int w + i / 2 + 51 / 100 \<and>
         real_of_int l \<le> of_int w - 3 * i / 2 + 51 / 100"
proof -
  define W :: real where "W = of_int w"
  define A :: real where "A = of_int (int a)"
  define B :: real where "B = of_int (int b + 1)"
  define swr where "swr = py_round (fl (W * s))"
  have W: "0 \<le> W" "W \<le> 2 ^ 31"
    using wb by (simp_all add: W_def)
  have s0: "0 \<le> s"
    using sb(1) by (rule order_trans [rotated]) simp
  note ib = inv_scale_bounds [OF sb, folded i]
  have i0: "0 \<le> i" "i \<le> 2 ^ 24" "99 / 100 \<le> i"
    using ib by simp_all
  have pfw: "py_float w = W"
    using wb by (simp add: py_float_exact W_def)
  have Ws: "0 \<le> W * s" "W * s \<le> W"
    using W(1) s0 sb(2) by (simp_all add: mult_left_le)
  have e: "W * s / 2 ^ 53 \<le> W / 2 ^ 53"
    using Ws(2) by (rule divide_right_mono) simp
  have swr_up: "real_of_int swr \<le> W * s + W * s / 2 ^ 53 + 1 / 2"
    using py_round_upper [of "fl (W * s)"] fl_upper [OF Ws(1)] by (simp add: swr_def)
  have "int b + 1 \<le> max 1 swr"
    using sw by (simp add: fmul_def pfw swr_def)
  then have b1: "int b + 1 \<le> swr"
    using ab by simp
  have "real_of_int swr \<le> 2 ^ 31 + 2 ^ 31 / 2 ^ 53 + 1 / 2"
    using swr_up Ws(2) e W(2) by simp
  then have "real_of_int swr < 2 ^ 32"
    by simp
  then have swr32: "swr < 2 ^ 32"
    by simp
  have pfb: "py_float (int b + 1) = B"
    using b1 swr32 by (simp add: py_float_exact B_def)
  have pfa: "py_float (int a) = A"
    using b1 swr32 ab by (simp add: py_float_exact A_def)
  have AB: "0 \<le> A" "A + 2 \<le> B" "B \<le> of_int swr"
    using ab b1 by (simp_all add: A_def B_def)
  text \<open>The right edge before rounding.\<close>
  have "B * i \<le> of_int swr * i"
    using AB(3) i0(1) by (rule mult_right_mono)
  also have "\<dots> \<le> (W * s + W * s / 2 ^ 53 + 1 / 2) * i"
    using swr_up i0(1) by (rule mult_right_mono)
  also have "\<dots> = W * (1 + 1 / 2 ^ 53) * (s * i) + i / 2"
    by (simp add: algebra_simps)
  also have "\<dots> \<le> W * (1 + 1 / 2 ^ 53) * (1 + 1 / 2 ^ 53) + i / 2"
    using W(1) ib by (intro add_right_mono mult_left_mono) simp_all
  also have "\<dots> = W + W * (2 / 2 ^ 53 + 1 / 2 ^ 106) + i / 2"
    by (simp add: algebra_simps)
  also have "\<dots> \<le> W + 2 ^ 31 * (2 / 2 ^ 53 + 1 / 2 ^ 106) + i / 2"
    using W(2) by (intro add_right_mono add_left_mono mult_right_mono) simp_all
  also have "\<dots> \<le> W + i / 2 + 1 / 2 ^ 20"
    by simp
  finally have R: "B * i \<le> W + i / 2 + 1 / 2 ^ 20" .
  have R0: "0 \<le> B * i"
    using AB i0(1) by simp
  have R32: "B * i \<le> 2 ^ 32"
    using R W(2) i0(2) by simp
  have Ai: "A * i + 2 * i \<le> B * i"
    using mult_right_mono [OF AB(2) i0(1)] by (simp add: algebra_simps)
  have A0: "0 \<le> A * i"
    using AB(1) i0(1) by simp
  have A32: "A * i \<le> 2 ^ 32"
    using Ai R32 i0(1) by simp
  have rr: "real_of_int r \<le> fl (B * i) + 1 / 2" "fl (B * i) - 1 / 2 \<le> real_of_int r"
    using py_round_upper [of "fl (B * i)"] py_round_lower [of "fl (B * i)"]
    by (simp_all add: r fmul_def pfb)
  have ll: "real_of_int l \<le> fl (A * i) + 1 / 2" "fl (A * i) - 1 / 2 \<le> real_of_int l"
    using py_round_upper [of "fl (A * i)"] py_round_lower [of "fl (A * i)"]
    by (simp_all add: l fmul_def pfa)
  note fr = fl_near [OF R0 R32]
  note fa = fl_near [OF A0 A32]
  have small: "(1 / 2 ^ 20 + 1 / 2 ^ 21 :: real) \<le> 1 / 100"
    by simp
  have small2: "(1 / 2 ^ 21 :: real) \<le> 1 / 1000"
    by simp
  have r_up: "real_of_int r \<le> W + i / 2 + 51 / 100"
    using rr(1) fr R small by linarith
  have l_up: "real_of_int l \<le> W - 3 * i / 2 + 51 / 100"
    using ll(1) fa Ai R small by linarith
  have "0 \<le> fl (A * i)"
    using A0 by (rule fl_nonneg)
  with ll(2) have "real_of_int (- 1) < real_of_int l"
    by simp
  then have "- 1 < l"
    by (simp only: of_int_less_iff)
  then have l0: "0 \<le> l"
    by simp
  have "real_of_int l < real_of_int r"
    using rr(2) ll(1) fr fa Ai i0(3) small2 by linarith
  then have "l < r"
    by (simp only: of_int_less_iff)
  then have lr: "l + 1 \<le> r"
    by simp
  have "real_of_int r \<le> 2 ^ 32"
    using r_up W(2) i0(2) by simp
  then have r32: "r \<le> 2 ^ 32"
    by simp
  from l0 lr r32 r_up l_up show ?thesis
    by (simp add: W_def)
qed

lemma inset_factor_bounds:
  "599 / 10000 \<le> fdiv CROP_INSET_PERCENT 100 \<and> fdiv CROP_INSET_PERCENT 100 \<le> 601 / 10000"
  by (simp add: CROP_INSET_PERCENT_def fl_eval)

text \<open>
  The centred square from a box with ordered edges: \<open>L\<close> and \<open>T\<close> are its unclamped left and
  top, \<open>side2\<close> its side. The square starts inside the image and ends after it starts.
\<close>

lemma centred_square_bounds:
  assumes i: "99 / 100 \<le> i"
    and l: "0 \<le> l" "l + 1 \<le> r" "r \<le> 2 ^ 32"
      "real_of_int r \<le> of_int w + i / 2 + 51 / 100"
      "real_of_int l \<le> of_int w - 3 * i / 2 + 51 / 100"
    and side: "r - l \<le> side" "1 \<le> side" "side \<le> 2 ^ 32"
    and inset: "inset = py_round (fmul (py_float side) (fdiv CROP_INSET_PERCENT 100))"
    and side2: "side2 = side - 2 * inset"
    and L: "L = py_round (fsub (fdiv (py_float (l + r)) 2) (fdiv (py_float side2) 2))"
  shows "0 \<le> side2 \<and> L \<le> w \<and> 0 \<le> L + side2"
proof -
  define c where "c = fdiv CROP_INSET_PERCENT 100"
  have c: "599 / 10000 \<le> c" "c \<le> 601 / 10000"
    using inset_factor_bounds by (simp_all add: c_def)
  define S :: real where "S = of_int side"
  have S: "1 \<le> S" "S \<le> 2 ^ 32" "real_of_int r - real_of_int l \<le> S"
    using side of_int_le_iff [of "r - l" side, where ?'a = real] by (simp_all add: S_def)
  have pfs: "py_float side = S"
    using side by (simp add: py_float_exact S_def)
  have X0: "0 \<le> S * c"
    using S(1) c(1) by simp
  have Xc: "S * c \<le> S * (601 / 10000)"
    using c(2) S(1) by (intro mult_left_mono) simp_all
  then have X32: "S * c \<le> 2 ^ 32"
    using S(2) by simp
  note fx = fl_near [OF X0 X32]
  have small: "(1 / 2 ^ 21 :: real) \<le> 1 / 1000"
    by simp
  have ins: "real_of_int inset \<le> fl (S * c) + 1 / 2" "fl (S * c) - 1 / 2 \<le> real_of_int inset"
    using py_round_upper [of "fl (S * c)"] py_round_lower [of "fl (S * c)"]
    by (simp_all add: inset fmul_def pfs c_def)
  have "10000 * c \<le> 601"
    using c(2) by simp
  then have "S * (10000 * c) \<le> S * 601"
    using S(1) by (intro mult_left_mono) simp_all
  then have Xc': "10000 * (S * c) \<le> 601 * S"
    by (simp add: mult_ac)
  have ins_up: "10000 * real_of_int inset \<le> 601 * S + 5100"
    using ins(1) fx Xc' small by linarith
  have "real_of_int (- 1) < real_of_int inset"
    using ins(2) fl_nonneg [OF X0] by simp
  then have "- 1 < inset"
    by (simp only: of_int_less_iff)
  then have ins0: "0 \<le> inset"
    by simp
  have "real_of_int inset \<le> 2 ^ 32"
    using ins_up S(2) by simp
  then have ins32: "inset \<le> 2 ^ 32"
    by simp
  have s2r: "real_of_int side2 = S - 2 * real_of_int inset"
    by (simp add: side2 S_def)
  have "real_of_int (- 1) < real_of_int side2"
    using s2r ins_up S(1) by simp
  then have "- 1 < side2"
    by (simp only: of_int_less_iff)
  then have s20: "0 \<le> side2"
    by simp
  have s2b: "\<bar>side2\<bar> < 2 ^ 53" "\<bar>l + r\<bar> < 2 ^ 53" "\<bar>l + r - side2\<bar> < 2 ^ 53"
    using s20 side2 side(3) ins0 l(1,2,3) by simp_all
  have cx: "fdiv (py_float (l + r)) 2 = of_int (l + r) / 2"
    unfolding fdiv_def py_float_exact [OF s2b(2)] by (rule fl_half_int [OF s2b(2)])
  have hs: "fdiv (py_float side2) 2 = of_int side2 / 2"
    unfolding fdiv_def py_float_exact [OF s2b(1)] by (rule fl_half_int [OF s2b(1)])
  have "fsub (of_int (l + r) / 2) (of_int side2 / 2) = fl (of_int (l + r - side2) / 2)"
    by (simp add: fsub_def diff_divide_distrib)
  also have "\<dots> = of_int (l + r - side2) / 2"
    using s2b(3) by (rule fl_half_int)
  finally have sub: "fsub (of_int (l + r) / 2) (of_int side2 / 2) = of_int (l + r - side2) / 2" .
  have Lr: "L = py_round (of_int (l + r - side2) / 2)"
    by (simp only: L cx hs sub)
  have Lb: "real_of_int L \<le> (real_of_int l + real_of_int r - real_of_int side2) / 2 + 1 / 2"
    "(real_of_int l + real_of_int r - real_of_int side2) / 2 - 1 / 2 \<le> real_of_int L"
    using py_round_upper [of "of_int (l + r - side2) / 2"]
      py_round_lower [of "of_int (l + r - side2) / 2"]
    by (simp_all add: Lr)
  have lr: "0 \<le> real_of_int l" "real_of_int l + 1 \<le> real_of_int r"
    using l(1) of_int_le_iff [of "l + 1" r, where ?'a = real] l(2) by simp_all
  have a1: "10000 * real_of_int L \<le> 5000 * real_of_int l + 5000 * real_of_int r - 4399 * S + 10100"
    using Lb(1) s2r ins_up by argo
  have a2: "10000 * real_of_int L \<le> 9399 * real_of_int l + 601 * real_of_int r + 10100"
    using a1 S(3) by argo
  have a3: "10000 * real_of_int L \<le> 10000 * real_of_int w - 13798 * i + 15200"
    using a2 l(4,5) by argo
  have "real_of_int L < real_of_int (w + 1)"
    using a3 i by simp
  then have "L < w + 1"
    by (simp only: of_int_less_iff)
  then have Lw: "L \<le> w"
    by simp
  have s2r0: "0 \<le> real_of_int side2"
    using s20 by simp
  have "- 1 < real_of_int L + real_of_int side2"
    using s2r0 Lb(2) lr by argo
  then have "real_of_int (- 1) < real_of_int (L + side2)"
    by simp
  then have "- 1 < L + side2"
    by (simp only: of_int_less_iff)
  then have "0 \<le> L + side2"
    by simp
  with s20 Lw show ?thesis
    by simp
qed

lemma max_inset_shift:
  "max (r - n - (l + n)) (b - n - (t + n)) = max (r - l) (b - t) - 2 * (n :: int)"
  by linarith

lemma square_box_in_bounds:
  assumes wb: "0 \<le> w" "w < 2 ^ 31"
    and hb: "0 \<le> h" "h < 2 ^ 31"
    and m: "1 \<le> max w h"
    and x: "min_x < max_x"
      "int max_x + 1 \<le> max 1 (py_round (fmul (py_float w) (downscale CROP_DOWNSCALE_MAX w h)))"
    and y: "min_y < max_y"
      "int max_y + 1 \<le> max 1 (py_round (fmul (py_float h) (downscale CROP_DOWNSCALE_MAX w h)))"
    and box: "square_box w h (downscale CROP_DOWNSCALE_MAX w h) CROP_INSET_PERCENT
        (min_x, min_y, max_x, max_y) = (sq_left, sq_top, sq_right, sq_bottom)"
  shows "0 \<le> sq_left \<and> sq_left \<le> sq_right \<and> sq_right \<le> w \<and>
         0 \<le> sq_top \<and> sq_top \<le> sq_bottom \<and> sq_bottom \<le> h"
proof -
  define s where "s = downscale CROP_DOWNSCALE_MAX w h"
  define i where "i = fdiv 1 s"
  define l where "l = py_round (fmul (py_float (int min_x)) i)"
  define r where "r = py_round (fmul (py_float (int max_x + 1)) i)"
  define t where "t = py_round (fmul (py_float (int min_y)) i)"
  define b where "b = py_round (fmul (py_float (int max_y + 1)) i)"
  define side where "side = max (r - l) (b - t)"
  define inset where "inset = py_round (fmul (py_float side) (fdiv CROP_INSET_PERCENT 100))"
  define side2 where "side2 = side - 2 * inset"
  define L where "L = py_round (fsub (fdiv (py_float (l + r)) 2) (fdiv (py_float side2) 2))"
  define T where "T = py_round (fsub (fdiv (py_float (t + b)) 2) (fdiv (py_float side2) 2))"
  have "max w h < 2 ^ 31"
    using wb(2) hb(2) by simp
  from downscale_bounds [OF m this]
  have sb: "1 / 2 ^ 23 \<le> s" "s \<le> 1"
    by (simp_all add: s_def)
  have i99: "99 / 100 \<le> i"
    using inv_scale_bounds [OF sb] by (simp add: i_def)
  note ax = axis_bounds [OF wb sb x(1) x(2) [folded s_def] i_def l_def r_def]
  note ay = axis_bounds [OF hb sb y(1) y(2) [folded s_def] i_def t_def b_def]
  have sx: "r - l \<le> side" and sy: "b - t \<le> side"
    by (simp_all add: side_def)
  have s1: "1 \<le> side"
    using ax sx by linarith
  have s32: "side \<le> 2 ^ 32"
    using ax ay by (simp add: side_def)
  have cx: "0 \<le> side2 \<and> L \<le> w \<and> 0 \<le> L + side2"
    using ax by (intro centred_square_bounds [OF i99 _ _ _ _ _ sx s1 s32 inset_def side2_def L_def])
      simp_all
  have cy: "0 \<le> side2 \<and> T \<le> h \<and> 0 \<le> T + side2"
    using ay by (intro centred_square_bounds [OF i99 _ _ _ _ _ sy s1 s32 inset_def side2_def T_def])
      simp_all
  have e1: "l + inset + (r - inset) = l + r" "t + inset + (b - inset) = t + b"
    by simp_all
  have e2: "max (r - inset - (l + inset)) (b - inset - (t + inset)) = side2"
    by (simp only: max_inset_shift side2_def side_def)
  have "square_box w h s CROP_INSET_PERCENT (min_x, min_y, max_x, max_y) =
      (max 0 L, max 0 T, min w (L + side2), min h (T + side2))"
    unfolding square_box_def Let_def prod.case
    unfolding i_def [symmetric]
    unfolding l_def [symmetric] r_def [symmetric] t_def [symmetric] b_def [symmetric]
    unfolding side_def [symmetric]
    unfolding inset_def [symmetric]
    unfolding e1 e2
    unfolding L_def [symmetric] T_def [symmetric]
    by (rule refl)
  with box have "sq_left = max 0 L" "sq_top = max 0 T" "sq_right = min w (L + side2)"
    "sq_bottom = min h (T + side2)"
    by (simp_all add: s_def)
  with cx cy wb(1) hb(1) show ?thesis
    by simp
qed

lemma scan_bounds_max_inside:
  assumes "scan_bounds st lt sw sh pixels = (min_x, min_y, max_x, max_y)"
    and "min_x < max_x" "min_y < max_y"
  shows "max_x < sw \<and> max_y < sh"
proof -
  note att = scan_list_attained [OF assms(1) [unfolded scan_bounds_product], unfolded bex_product_upt]
  from att [THEN conjunct2, THEN conjunct2, THEN conjunct1] assms(2) have "max_x < sw"
    by auto
  moreover from att [THEN conjunct2, THEN conjunct2, THEN conjunct2] assms(3) have "max_y < sh"
    by auto
  ultimately show ?thesis by simp
qed

lemma crop_rectangle_ok:
  assumes "0 < xsize img \<or> 0 < ysize img" "xsize img < 2 ^ 31" "ysize img < 2 ^ 31"
    and ss: "small_size CROP_DOWNSCALE_MAX (int (xsize img)) (int (ysize img)) = (sw, sh)"
    and sc: "scan_bounds st lt sw sh pixels = (min_x, min_y, max_x, max_y)"
    and nd: "min_x < max_x" "min_y < max_y"
    and box: "square_box (int (xsize img)) (int (ysize img))
          (downscale CROP_DOWNSCALE_MAX (int (xsize img)) (int (ysize img)))
          CROP_INSET_PERCENT (min_x, min_y, max_x, max_y) = (sq_left, sq_top, sq_right, sq_bottom)"
  shows "0 \<le> sq_left \<and> sq_left \<le> sq_right \<and> sq_right \<le> int (xsize img) \<and>
         0 \<le> sq_top \<and> sq_top \<le> sq_bottom \<and> sq_bottom \<le> int (ysize img)"
proof -
  define w where "w = int (xsize img)"
  define h where "h = int (ysize img)"
  have wb: "0 \<le> w" "w < 2 ^ 31" and hb: "0 \<le> h" "h < 2 ^ 31" and m: "1 \<le> max w h"
    using assms(1-3) by (auto simp: w_def h_def)
  from scan_bounds_max_inside [OF sc nd] have in_sw: "max_x < sw" "max_y < sh"
    by simp_all
  from ss have
    "sw = nat (max 1 (py_round (fmul (py_float w) (downscale CROP_DOWNSCALE_MAX w h))))"
    "sh = nat (max 1 (py_round (fmul (py_float h) (downscale CROP_DOWNSCALE_MAX w h))))"
    by (simp_all add: small_size_def Let_def w_def h_def)
  with in_sw have
    x: "int max_x + 1 \<le> max 1 (py_round (fmul (py_float w) (downscale CROP_DOWNSCALE_MAX w h)))"
    and y: "int max_y + 1 \<le> max 1 (py_round (fmul (py_float h) (downscale CROP_DOWNSCALE_MAX w h)))"
    by linarith+
  from square_box_in_bounds [OF wb hb m nd(1) x nd(2) y box [folded w_def h_def]]
  show ?thesis
    by (simp add: w_def h_def)
qed

text \<open>
  C10: on the crop path, for an image with sides of at least 1 that fit a C int, the clamped
  square is well-formed and inside the image, so \<open>crop\<close> is given a valid rectangle and
  returns an image.
\<close>

theorem crop_rectangle_in_bounds:
  assumes "1 \<le> xsize img" "1 \<le> ysize img" "xsize img < 2 ^ 31" "ysize img < 2 ^ 31"
    and "small_size CROP_DOWNSCALE_MAX (int (xsize img)) (int (ysize img)) = (sw, sh)"
    and "scan_bounds CROP_SAT_THRESH CROP_LUM_THRESH sw sh (pix (resize BILINEAR img (sw, sh)))
           = (min_x, min_y, max_x, max_y)"
    and "min_x < max_x" "min_y < max_y"
    and "square_box (int (xsize img)) (int (ysize img))
          (downscale CROP_DOWNSCALE_MAX (int (xsize img)) (int (ysize img)))
          CROP_INSET_PERCENT (min_x, min_y, max_x, max_y) = (sq_left, sq_top, sq_right, sq_bottom)"
  shows "0 \<le> sq_left \<and> sq_left \<le> sq_right \<and> sq_right \<le> int (xsize img) \<and>
         0 \<le> sq_top \<and> sq_top \<le> sq_bottom \<and> sq_bottom \<le> int (ysize img) \<and>
         (\<exists>cropped. crop img (sq_left, sq_top, sq_right, sq_bottom) = Inr cropped \<and>
            int (xsize cropped) = sq_right - sq_left \<and> int (ysize cropped) = sq_bottom - sq_top)"
proof -
  have nz: "0 < xsize img \<or> 0 < ysize img"
    using assms(1) by simp
  note b = crop_rectangle_ok [OF nz assms(3-9)]
  then have "\<exists>cropped. crop img (sq_left, sq_top, sq_right, sq_bottom) = Inr cropped \<and>
      int (xsize cropped) = sq_right - sq_left \<and> int (ysize cropped) = sq_bottom - sq_top"
    by (simp add: crop_def)
  with b show ?thesis
    by simp
qed

theorem crop_rectangle_in_bounds_witness:
  "square_box 4 3 (downscale CROP_DOWNSCALE_MAX 4 3) CROP_INSET_PERCENT (0, 0, 3, 2) = (0, 0, 4, 3) \<and>
   (\<exists>cropped. crop black_4x3 (0, 0, 4, 3) = Inr cropped \<and>
      int (xsize cropped) = 4 - 0 \<and> int (ysize cropped) = 3 - 0)"
proof -
  have sz: "xsize black_4x3 = 4" "ysize black_4x3 = 3"
    by (simp_all add: black_4x3_def new_image_def)
  have h: "1 \<le> xsize black_4x3" "1 \<le> ysize black_4x3"
    "xsize black_4x3 < 2 ^ 31" "ysize black_4x3 < 2 ^ 31"
    "small_size CROP_DOWNSCALE_MAX (int (xsize black_4x3)) (int (ysize black_4x3)) = (4, 3)"
    "square_box (int (xsize black_4x3)) (int (ysize black_4x3))
          (downscale CROP_DOWNSCALE_MAX (int (xsize black_4x3)) (int (ysize black_4x3)))
          CROP_INSET_PERCENT (0, 0, 3, 2) = (0, 0, 4, 3)"
    by (simp_all add: sz small_size_4_3 sq_black)
  have n: "(0::nat) < 3" "(0::nat) < 2"
    by simp_all
  note t = crop_rectangle_in_bounds [where resize = resize_nearest, OF h(1-5) scan_black n h(6)]
  have "\<exists>cropped. crop black_4x3 (0, 0, 4, 3) = Inr cropped \<and>
      int (xsize cropped) = 4 - 0 \<and> int (ysize cropped) = 3 - 0"
    by (rule t [THEN conjunct2, THEN conjunct2, THEN conjunct2, THEN conjunct2, THEN conjunct2,
          THEN conjunct2])
  with sq_black show ?thesis
    by (intro conjI)
qed

text \<open>
  So the cropper raises nothing on an image with a non-zero side whose sides fit a C int, and
  \<open>main\<close> produces its three images.
\<close>

lemma crop_to_gradient_tile_square_returns:
  assumes "0 < xsize img \<or> 0 < ysize img" "xsize img < 2 ^ 31" "ysize img < 2 ^ 31"
  shows "\<exists>out. crop_to_gradient_tile_square resize img = Inr out"
proof -
  obtain sw sh where ss: "small_size CROP_DOWNSCALE_MAX (int (xsize img)) (int (ysize img)) = (sw, sh)"
    by (cases "small_size CROP_DOWNSCALE_MAX (int (xsize img)) (int (ysize img))")
  obtain min_x min_y max_x max_y where
    sc: "scan_bounds CROP_SAT_THRESH CROP_LUM_THRESH sw sh (pix (resize BILINEAR img (sw, sh)))
           = (min_x, min_y, max_x, max_y)"
    by (metis prod_cases4)
  obtain sq_left sq_top sq_right sq_bottom where
    box: "square_box (int (xsize img)) (int (ysize img))
          (downscale CROP_DOWNSCALE_MAX (int (xsize img)) (int (ysize img)))
          CROP_INSET_PERCENT (min_x, min_y, max_x, max_y) = (sq_left, sq_top, sq_right, sq_bottom)"
    by (metis prod_cases4)
  note unf = crop_to_gradient_tile_square_unfold
    [of img sw sh resize min_x min_y max_x max_y, OF assms(1) ss sc]
  show ?thesis
  proof (cases "min_x < max_x \<and> min_y < max_y")
    case True
    then have nd: "min_x < max_x" "min_y < max_y"
      by simp_all
    from crop_rectangle_ok [OF assms ss sc nd box]
    have "\<exists>c. crop img (sq_left, sq_top, sq_right, sq_bottom) = Inr c"
      by (simp add: crop_def)
    then show ?thesis
      using True by (auto simp: unf box)
  next
    case False
    then show ?thesis
      by (auto simp: unf)
  qed
qed

lemma main_returns:
  assumes "0 < xsize original \<or> 0 < ysize original" "xsize original < 2 ^ 31"
    "ysize original < 2 ^ 31"
  shows "\<exists>light dark tinted. main resize original = Inr (light, dark, tinted)"
  using crop_to_gradient_tile_square_returns [OF assms, of resize]
  by (auto simp: main_def create_light_icon_def)

end
